theory Spec2Isabelle
  imports Complex_Main
begin

section \<open>Medicine-ball throw distance: the measurement pipeline\<close>

text \<open>
  Shallow embedding of \<^verbatim>\<open>ThrowDistanceMeasurer._process\<close> and
  \<^verbatim>\<open>ThrowDistanceMeasurer.process_video\<close> of
  \<^verbatim>\<open>AntarDristhi_MedicineBall/medicineBall.py\<close>.

  The two vision back ends (the HSV ball detector and the MediaPipe pose estimator), the
  video decoder and the key poll of the preview window are outside the pipeline: a run is
  given, per frame, by what those calls return. Drawing only changes the frame that is
  shown and is left out.

  Python floats are IEEE binary64 values, modelled by \<open>pyfloat\<close> below: every operation
  computes the exact result and rounds it to the nearest double.
\<close>

subsection \<open>Python floats\<close>

text \<open>The exceptions that the arithmetic and \<^verbatim>\<open>max\<close> can raise.\<close>

datatype py_error = ValueError | OverflowError | ZeroDivisionError

text \<open>
  A float is a finite double, given by its exact value, an infinity or a NaN. The two
  zeros are not told apart: they are equal for \<^verbatim>\<open>==\<close> and for every comparison, and the
  pipeline never divides by a float it has computed.
\<close>

datatype pyfloat = Finite rat | PInf | NInf | NaN

text \<open>Rounding to an integer, ties to the even one.\<close>

definition round_half_even :: "rat \<Rightarrow> int" where
  "round_half_even q =
     (let f = \<lfloor>q\<rfloor>; d = q - of_int f
      in if d < 1 / 2 then f else if 1 / 2 < d then f + 1 else if even f then f else f + 1)"

text \<open>\<^verbatim>\<open>int.bit_length\<close> of a positive integer, and powers of two by squaring.\<close>

function bit_length :: "int \<Rightarrow> int" where
  "bit_length n = (if n \<le> 0 then 0 else 1 + bit_length (n div 2))"
  by pat_completeness auto
termination
  by (relation "measure nat") auto

declare bit_length.simps [simp del]

function power2 :: "int \<Rightarrow> rat" where
  "power2 n =
     (if n \<le> 0 then 1
      else (let h = power2 (n div 2) in if even n then h * h else 2 * h * h))"
  by pat_completeness auto
termination
  by (relation "measure nat") auto

declare power2.simps [simp del]

definition pow2 :: "int \<Rightarrow> rat" where
  "pow2 e = (if 0 \<le> e then power2 e else 1 / power2 (- e))"

text \<open>The binary exponent \<open>e\<close> of a rational other than zero: \<open>2^e \<le> |x| < 2^(e+1)\<close>. The
  bit lengths of numerator and denominator give it up to one.\<close>

definition exponent_of :: "rat \<Rightarrow> int" where
  "exponent_of x =
     (let (p, q) = quotient_of \<bar>x\<bar>;
          d = bit_length p - bit_length q
      in if pow2 d \<le> \<bar>x\<bar> then d else d - 1)"

text \<open>
  The double nearest to an exact value, ties to even: a multiple \<open>m * 2^q\<close> of the unit in
  the last of 53 bits (of \<open>2^-1074\<close> for a subnormal), and an infinity when the rounded
  value reaches \<open>2^1024\<close>, which is when \<open>m\<close> has more than \<open>1024 - q\<close> bits.
\<close>

definition nearest_double :: "rat \<Rightarrow> pyfloat" where
  "nearest_double x =
     (if x = 0 then Finite 0
      else (let e = exponent_of x;
                q = max (e - 52) (- 1074);
                m = round_half_even (x / pow2 q)
            in if 1024 < q + bit_length \<bar>m\<bar>
               then (if 0 < x then PInf else NInf)
               else Finite (of_int m * pow2 q)))"

text \<open>An \<^verbatim>\<open>int\<close> operand of a float operation is converted first; the conversion rounds
  and raises \<^verbatim>\<open>OverflowError\<close> when the integer is too large for a double.\<close>

definition float_of_int :: "int \<Rightarrow> py_error + pyfloat" where
  "float_of_int n =
     (case nearest_double (of_int n) of
        Finite r \<Rightarrow> Inr (Finite r)
      | _ \<Rightarrow> Inl OverflowError)"

fun float_sign :: "pyfloat \<Rightarrow> int" where
  "float_sign (Finite x) = (if 0 < x then 1 else if x < 0 then - 1 else 0)"
| "float_sign PInf = 1"
| "float_sign NInf = - 1"
| "float_sign NaN = 0"

definition signed_inf :: "int \<Rightarrow> pyfloat" where
  "signed_inf s = (if s = 0 then NaN else if 0 < s then PInf else NInf)"

text \<open>The product of two floats.\<close>

fun float_mul :: "pyfloat \<Rightarrow> pyfloat \<Rightarrow> pyfloat" where
  "float_mul NaN b = NaN"
| "float_mul a NaN = NaN"
| "float_mul (Finite x) (Finite y) = nearest_double (x * y)"
| "float_mul a b = signed_inf (float_sign a * float_sign b)"

text \<open>
  The quotient of two floats whose divisor is not zero, and Python's \<^verbatim>\<open>/\<close>, which raises
  \<^verbatim>\<open>ZeroDivisionError\<close> on a zero divisor. The pipeline divides by a pixel height that has
  passed the test \<^verbatim>\<open>ph > 30\<close> and by 100, so it uses the quotient.
\<close>

fun float_quotient :: "pyfloat \<Rightarrow> pyfloat \<Rightarrow> pyfloat" where
  "float_quotient NaN b = NaN"
| "float_quotient a NaN = NaN"
| "float_quotient (Finite x) (Finite y) = nearest_double (x / y)"
| "float_quotient (Finite x) b = Finite 0"
| "float_quotient a (Finite y) = signed_inf (float_sign a * float_sign (Finite y))"
| "float_quotient a b = NaN"

definition float_div :: "pyfloat \<Rightarrow> pyfloat \<Rightarrow> py_error + pyfloat" where
  "float_div a b = (if b = Finite 0 then Inl ZeroDivisionError else Inr (float_quotient a b))"

text \<open>The comparisons \<^verbatim>\<open><=\<close> and \<^verbatim>\<open><\<close>: false as soon as an operand is a NaN.\<close>

fun float_le :: "pyfloat \<Rightarrow> pyfloat \<Rightarrow> bool" where
  "float_le NaN b = False"
| "float_le a NaN = False"
| "float_le NInf b = True"
| "float_le a PInf = True"
| "float_le (Finite x) (Finite y) = (x \<le> y)"
| "float_le a b = False"

fun float_less :: "pyfloat \<Rightarrow> pyfloat \<Rightarrow> bool" where
  "float_less NaN b = False"
| "float_less a NaN = False"
| "float_less a b = (float_le a b \<and> a \<noteq> b)"

text \<open>The truth value of a float: false for zero only.\<close>

definition float_truthy :: "pyfloat \<Rightarrow> bool" where
  "float_truthy a = (a \<noteq> Finite 0)"

text \<open>
  \<^verbatim>\<open>round(x, n)\<close> for \<open>n \<ge> 0\<close>: the decimal with \<open>n\<close> digits nearest to the exact value of
  \<open>x\<close>, ties to even, and then the double nearest to that decimal. Infinities and NaN
  round to themselves.
\<close>

fun py_round :: "pyfloat \<Rightarrow> nat \<Rightarrow> pyfloat" where
  "py_round (Finite x) n = nearest_double (of_int (round_half_even (x * 10 ^ n)) / 10 ^ n)"
| "py_round a n = a"

subsection \<open>Data\<close>

text \<open>\<^verbatim>\<open>Config\<close>: the two manual overrides are the only fields \<^verbatim>\<open>_process\<close> reads itself;
  the others parametrise the detectors.\<close>

record Config =
  manual_scale_cm_per_px :: "pyfloat option"
  manual_origin_x :: "int option"

record MeasurementResult =
  status :: string
  distance_cm :: "pyfloat option"
  distance_m :: "pyfloat option"
  calibration_scale :: "pyfloat option"
  trajectory_points :: nat
  processing_time_ms :: pyfloat
  error_message :: "string option"

text \<open>The dataclass constructor with its defaults: only the status is mandatory.\<close>

definition MeasurementResult_init :: "string \<Rightarrow> MeasurementResult" where
  "MeasurementResult_init s =
     \<lparr>status = s, distance_cm = None, distance_m = None, calibration_scale = None,
      trajectory_points = 0, processing_time_ms = Finite 0, error_message = None\<rparr>"

text \<open>A ball observation \<^verbatim>\<open>(x, y, frame)\<close>.\<close>

type_synonym ball = "int \<times> int \<times> nat"

definition ball_x :: "ball \<Rightarrow> int" where
  "ball_x b = fst b"

definition ball_y :: "ball \<Rightarrow> int" where
  "ball_y b = fst (snd b)"

text \<open>
  What the outside world returns during one iteration of the frame loop:
  \<^verbatim>\<open>get_person_x(frame)\<close> (a position and an optional pixel height, or nothing),
  \<^verbatim>\<open>detect(frame)\<close> (a centroid, or nothing) and \<^verbatim>\<open>cv2.waitKey(1)\<close>.
  The pose estimator is only called while the scale or the hint is missing; once both are
  there they stay, so the calls made are those of a prefix of the frames.
\<close>

record frame_obs =
  pose_result :: "(int \<times> pyfloat option) option"
  ball_pos :: "(int \<times> int) option"
  wait_key :: int

text \<open>The local variables of \<^verbatim>\<open>_process\<close> that the frame loop updates.\<close>

record loop_state =
  scale :: "pyfloat option"
  all_balls :: "ball list"
  person_x_hint :: "int option"
  frame_count :: nat

subsection \<open>The frame loop\<close>

text \<open>Lines 370-381: the person signal sets the hint and, at most, the scale. The pixel
  height that divides has passed the test \<^verbatim>\<open>ph > 30\<close>, so the division cannot raise.\<close>

definition person_step ::
  "pyfloat \<Rightarrow> (int \<times> pyfloat option) option \<Rightarrow> loop_state \<Rightarrow> loop_state" where
  "person_step athlete_height_cm pr s =
     (if scale s = None \<or> person_x_hint s = None then
        (case pr of
           None \<Rightarrow> s
         | Some (px, ph) \<Rightarrow>
             (let s1 = (if person_x_hint s = None then s\<lparr>person_x_hint := Some px\<rparr> else s)
              in (case ph of
                    None \<Rightarrow> s1
                  | Some h \<Rightarrow>
                      if scale s1 = None \<and> float_truthy h \<and> float_less (Finite 30) h then
                        (let candidate_scale = float_quotient athlete_height_cm h
                         in if float_le (nearest_double (2 / 10)) candidate_scale
                               \<and> float_le candidate_scale (Finite (15 / 10))
                            then s1\<lparr>scale := Some candidate_scale\<rparr> else s1)
                      else s1)))
      else s)"

text \<open>Lines 384-386: a detection is appended with the number of its frame.\<close>

definition ball_step :: "(int \<times> int) option \<Rightarrow> loop_state \<Rightarrow> loop_state" where
  "ball_step bp s =
     (case bp of
        None \<Rightarrow> s
      | Some (bx, by) \<Rightarrow> s\<lparr>all_balls := all_balls s @ [(bx, by, frame_count s)]\<rparr>)"

definition frame_step :: "pyfloat \<Rightarrow> frame_obs \<Rightarrow> loop_state \<Rightarrow> loop_state" where
  "frame_step athlete_height_cm fr s =
     ball_step (ball_pos fr)
       (person_step athlete_height_cm (pose_result fr) (s\<lparr>frame_count := frame_count s + 1\<rparr>))"

text \<open>Line 415: \<^verbatim>\<open>cv2.waitKey(1) & 0xFF == ord('q')\<close>.\<close>

definition quit_pressed :: "int \<Rightarrow> bool" where
  "quit_pressed k = (and k 255 = 113)"

text \<open>
  The \<^verbatim>\<open>while True\<close> loop over the frames of the video, which are finitely many. It ends at
  the end of the stream with the state reached (\<open>Inr\<close>), or inside an iteration with the
  early return of line 416 (\<open>Inl\<close>).
\<close>

fun frame_loop ::
  "pyfloat \<Rightarrow> bool \<Rightarrow> frame_obs list \<Rightarrow> loop_state \<Rightarrow> MeasurementResult + loop_state" where
  "frame_loop athlete_height_cm show_preview [] s = Inr s"
| "frame_loop athlete_height_cm show_preview (fr # frs) s =
     (let s' = frame_step athlete_height_cm fr s
      in if show_preview \<and> quit_pressed (wait_key fr)
         then Inl (MeasurementResult_init ''CANCELLED'')
         else frame_loop athlete_height_cm show_preview frs s')"

definition init_state :: "Config \<Rightarrow> loop_state" where
  "init_state config =
     \<lparr>scale = manual_scale_cm_per_px config, all_balls = [], person_x_hint = None,
      frame_count = 0\<rparr>"

subsection \<open>Origin, landing and distance\<close>

text \<open>Python's \<^verbatim>\<open>max(it, key=k)\<close>: the first element whose key is the largest;
  \<^verbatim>\<open>ValueError\<close> (\<open>None\<close>) on an empty iterable.\<close>

fun max_from :: "('a \<Rightarrow> 'b::linorder) \<Rightarrow> 'a \<Rightarrow> 'a list \<Rightarrow> 'a" where
  "max_from k best [] = best"
| "max_from k best (x # xs) = max_from k (if k best < k x then x else best) xs"

definition py_max :: "('a \<Rightarrow> 'b::linorder) \<Rightarrow> 'a list \<Rightarrow> 'a option" where
  "py_max k xs = (case xs of [] \<Rightarrow> None | x # ys \<Rightarrow> Some (max_from k x ys))"

text \<open>
  Lines 442-445: \<^verbatim>\<open>position_counts\<close> is a \<^verbatim>\<open>defaultdict(int)\<close>; the order in which its
  keys were inserted decides which of several modal bins \<^verbatim>\<open>max\<close> returns, so it is an
  association list in insertion order.
\<close>

fun bump :: "int \<Rightarrow> (int \<times> nat) list \<Rightarrow> (int \<times> nat) list" where
  "bump k [] = [(k, 1)]"
| "bump k ((k', c) # kcs) = (if k = k' then (k', c + 1) # kcs else (k', c) # bump k kcs)"

fun count_of :: "(int \<times> nat) list \<Rightarrow> int \<Rightarrow> nat" where
  "count_of [] k = 0"
| "count_of ((k', c) # kcs) k = (if k = k' then c else count_of kcs k)"

definition bucket_of :: "int \<Rightarrow> int" where
  "bucket_of x = (x div 50) * 50"

definition position_counts :: "ball list \<Rightarrow> (int \<times> nat) list" where
  "position_counts balls = fold (\<lambda>b pc. bump (bucket_of (ball_x b)) pc) balls []"

definition static_bucket_of :: "(int \<times> nat) list \<Rightarrow> int" where
  "static_bucket_of pc =
     (case py_max (count_of pc) (map fst pc) of None \<Rightarrow> 0 | Some k \<Rightarrow> k)"

text \<open>Lines 447-455: the static-cluster filter. The result is the pair of the new
  \<^verbatim>\<open>all_balls\<close> and the new \<^verbatim>\<open>origin_x\<close>. The count is an integer, so comparing it with
  the float product \<^verbatim>\<open>len(all_balls) * 0.4\<close> decides as the exact product does.\<close>

definition static_filter :: "ball list \<Rightarrow> int \<Rightarrow> ball list \<times> int" where
  "static_filter balls origin_x =
     (let pc = position_counts balls;
          static_bucket = static_bucket_of pc;
          static_count = count_of pc static_bucket
      in if rat_of_nat static_count > rat_of_nat (length balls) * (4 / 10) then
           (let filtered_balls = filter (\<lambda>b. \<bar>ball_x b - static_bucket - 25\<bar> > 75) balls
            in if length filtered_balls \<ge> 3
               then (filtered_balls, ball_x (filtered_balls ! 0))
               else (balls, origin_x))
         else (balls, origin_x))"

text \<open>Lines 458-463: the loop \<^verbatim>\<open>for i in range(len(all_balls) - 3)\<close> with its
  \<^verbatim>\<open>break\<close>, over the indices still to visit.\<close>

fun movement_scan :: "ball list \<Rightarrow> nat list \<Rightarrow> int \<Rightarrow> int" where
  "movement_scan balls [] origin_x = origin_x"
| "movement_scan balls (i # is) origin_x =
     (if \<bar>ball_x (balls ! (i + 2)) - ball_x (balls ! i)\<bar> > 20
      then ball_x (balls ! nat (max 0 (int i - 1)))
      else movement_scan balls is origin_x)"

text \<open>Lines 429-468: the origin strategies, for a list of at least three balls. They
  return the origin and the list that \<^verbatim>\<open>all_balls\<close> names afterwards.\<close>

definition origin_strategies :: "ball list \<Rightarrow> int option \<Rightarrow> int \<times> ball list" where
  "origin_strategies balls hint =
     (let origin_x = ball_x (balls ! 0)
      in case hint of
           None \<Rightarrow> (origin_x, balls)
         | Some p \<Rightarrow>
             (let balls_near_person = filter (\<lambda>b. \<bar>ball_x b - p\<bar> < 200) balls
              in if balls_near_person \<noteq> [] then (ball_x (balls_near_person ! 0), balls)
                 else (let (balls', origin_x') = static_filter balls origin_x
                       in (movement_scan balls' [0 ..< length balls' - 3] origin_x', balls'))))"

text \<open>Lines 471-473: \<^verbatim>\<open>if self.config.manual_origin_x:\<close> tests the truth value of an
  optional integer: \<^verbatim>\<open>None\<close> and \<open>0\<close> are both false.\<close>

definition manual_override :: "int option \<Rightarrow> int \<Rightarrow> int" where
  "manual_override m origin_x =
     (case m of None \<Rightarrow> origin_x | Some v \<Rightarrow> if v \<noteq> 0 then v else origin_x)"

definition resolve_origin :: "Config \<Rightarrow> ball list \<Rightarrow> int option \<Rightarrow> int \<times> ball list" where
  "resolve_origin config balls hint =
     (let (origin_x, balls') = origin_strategies balls hint
      in (manual_override (manual_origin_x config) origin_x, balls'))"

text \<open>Lines 483-484: the landing is the first ball of largest \<open>y\<close>.\<close>

definition landing_idx :: "ball list \<Rightarrow> nat option" where
  "landing_idx balls = py_max (\<lambda>i. ball_y (balls ! i)) [0 ..< length balls]"

definition landing :: "ball list \<Rightarrow> ball option" where
  "landing balls = map_option (\<lambda>i. balls ! i) (landing_idx balls)"

text \<open>Lines 476-480: the default scale.\<close>

definition final_scale :: "pyfloat option \<Rightarrow> pyfloat" where
  "final_scale sc = (case sc of None \<Rightarrow> Finite (5 / 10) | Some v \<Rightarrow> v)"

subsection \<open>The pipeline\<close>

text \<open>
  Lines 419-513: the analysis after the loop. \<^verbatim>\<open>max\<close> over an empty range would raise
  \<^verbatim>\<open>ValueError\<close>, and the product \<^verbatim>\<open>pixel_dist * scale\<close> raises \<^verbatim>\<open>OverflowError\<close> when
  the integer \<^verbatim>\<open>pixel_dist\<close> is too large for a float; nothing catches either.
\<close>

definition analyze :: "Config \<Rightarrow> loop_state \<Rightarrow> py_error + MeasurementResult" where
  "analyze config s =
     (if length (all_balls s) < 3 then
        Inr ((MeasurementResult_init ''INVALID'')
          \<lparr>trajectory_points := length (all_balls s),
           error_message := Some ''Not enough ball detections. Adjust ball color settings.''\<rparr>)
      else
        (let (origin_x, balls) = resolve_origin config (all_balls s) (person_x_hint s);
             sc = final_scale (scale s)
         in case landing balls of
              None \<Rightarrow> Inl ValueError
            | Some (landing_x, landing_y, landing_frame) \<Rightarrow>
                (let pixel_dist = \<bar>landing_x - origin_x\<bar>
                 in case float_of_int pixel_dist of
                      Inl e \<Rightarrow> Inl e
                    | Inr p \<Rightarrow>
                        (let dist_cm = float_mul p sc
                         in Inr ((MeasurementResult_init ''VALID'')
                              \<lparr>distance_cm := Some (py_round dist_cm 2),
                               distance_m :=
                                 Some (py_round (float_quotient dist_cm (Finite 100)) 3),
                               calibration_scale := Some sc,
                               trajectory_points := length balls\<rparr>)))))"

definition process ::
  "Config \<Rightarrow> frame_obs list \<Rightarrow> pyfloat \<Rightarrow> bool \<Rightarrow> py_error + MeasurementResult" where
  "process config frames athlete_height_cm show_preview =
     (case frame_loop athlete_height_cm show_preview frames (init_state config) of
        Inl r \<Rightarrow> Inr r
      | Inr s \<Rightarrow> analyze config s)"

text \<open>
  \<^verbatim>\<open>process_video\<close>: the two checks on the video, then \<^verbatim>\<open>_process\<close>, whose result gets
  the elapsed time. Whether the path exists, whether the capture opened and the time taken
  are inputs.
\<close>

definition process_video ::
  "Config \<Rightarrow> string \<Rightarrow> bool \<Rightarrow> bool \<Rightarrow> frame_obs list \<Rightarrow> pyfloat \<Rightarrow> bool \<Rightarrow> pyfloat
     \<Rightarrow> py_error + MeasurementResult" where
  "process_video config video_path path_exists is_opened frames athlete_height_cm show_preview
       elapsed_ms =
     (if \<not> path_exists then
        Inr ((MeasurementResult_init ''ERROR'')
               \<lparr>error_message := Some (''Video not found: '' @ video_path)\<rparr>)
      else if \<not> is_opened then
        Inr ((MeasurementResult_init ''ERROR'')\<lparr>error_message := Some ''Cannot open video''\<rparr>)
      else (case process config frames athlete_height_cm show_preview of
              Inl e \<Rightarrow> Inl e
            | Inr result \<Rightarrow> Inr (result\<lparr>processing_time_ms := elapsed_ms\<rparr>)))"

subsection \<open>Vocabulary of the properties\<close>

text \<open>A run is cancelled when the preview is shown and some frame's key poll reads
  \<^verbatim>\<open>q\<close>.\<close>

definition cancelled :: "bool \<Rightarrow> frame_obs list \<Rightarrow> bool" where
  "cancelled show_preview frames =
     (show_preview \<and> list_ex (\<lambda>fr. quit_pressed (wait_key fr)) frames)"

text \<open>The state after all frames, when no iteration returns early.\<close>

definition run_frames :: "pyfloat \<Rightarrow> frame_obs list \<Rightarrow> loop_state \<Rightarrow> loop_state" where
  "run_frames athlete_height_cm frames s = fold (frame_step athlete_height_cm) frames s"

text \<open>The number of object observations of a video: its frames with a detection.\<close>

definition observations :: "frame_obs list \<Rightarrow> nat" where
  "observations frames = length (filter (\<lambda>fr. ball_pos fr \<noteq> None) frames)"

text \<open>A frame during which no key is pressed: \<^verbatim>\<open>cv2.waitKey\<close> returns \<open>-1\<close>.\<close>

definition frame ::
  "(int \<times> pyfloat option) option \<Rightarrow> (int \<times> int) option \<Rightarrow> frame_obs" where
  "frame pr bp = \<lparr>pose_result = pr, ball_pos = bp, wait_key = - 1\<rparr>"

text \<open>
  The scale a person signal yields by itself: the athlete's height over the pixel height,
  when the pixel height exceeds 30 and the ratio lies in \<open>[0.2, 1.5]\<close> (the bounds being
  the doubles that \<^verbatim>\<open>0.2\<close> and \<^verbatim>\<open>1.5\<close> denote); and the first such value along the frames
  of a video.
\<close>

definition derived_scale :: "pyfloat \<Rightarrow> (int \<times> pyfloat option) option \<Rightarrow> pyfloat option" where
  "derived_scale athlete_height_cm pr =
     (case pr of
        Some (px, Some ph) \<Rightarrow>
          if float_less (Finite 30) ph
             \<and> float_le (nearest_double (2 / 10)) (float_quotient athlete_height_cm ph)
             \<and> float_le (float_quotient athlete_height_cm ph) (Finite (15 / 10))
          then Some (float_quotient athlete_height_cm ph) else None
      | _ \<Rightarrow> None)"

fun first_derived_scale :: "pyfloat \<Rightarrow> frame_obs list \<Rightarrow> pyfloat option" where
  "first_derived_scale athlete_height_cm [] = None"
| "first_derived_scale athlete_height_cm (fr # frs) =
     (case derived_scale athlete_height_cm (pose_result fr) of
        Some v \<Rightarrow> Some v
      | None \<Rightarrow> first_derived_scale athlete_height_cm frs)"

text \<open>The number of balls of a trajectory in the bin that starts at \<open>k\<close>.\<close>

definition bin_count :: "ball list \<Rightarrow> int \<Rightarrow> nat" where
  "bin_count balls k = length (filter (\<lambda>b. bucket_of (ball_x b) = k) balls)"

text \<open>
  The movement scan as the specification words it, over every triple \<open>(i, i + 2)\<close> of the
  trajectory: the \<open>x\<close> one ball before the first triple that moves by more than 20 pixels,
  and the first ball's \<open>x\<close> if there is none.
\<close>

definition spec_movement_origin :: "ball list \<Rightarrow> int" where
  "spec_movement_origin balls =
     (case find (\<lambda>i. \<bar>ball_x (balls ! (i + 2)) - ball_x (balls ! i)\<bar> > 20)
             [0 ..< length balls - 2] of
        None \<Rightarrow> ball_x (balls ! 0)
      | Some i \<Rightarrow> ball_x (balls ! nat (max 0 (int i - 1))))"

text \<open>
  An example run: a person at \<open>x = 100\<close>, three detections of a static object around
  \<open>x = 1010\<close> (the lowest of all at \<open>y = 500\<close>), then three of the moving ball.
\<close>

definition static_cluster_balls :: "ball list" where
  "static_cluster_balls =
     [(1000, 100, 1), (1010, 110, 2), (1020, 500, 3), (1500, 200, 4), (1600, 300, 5),
      (1700, 400, 6)]"

definition static_cluster_frames :: "frame_obs list" where
  "static_cluster_frames =
     [frame (Some (100, Some (Finite 350))) (Some (1000, 100)), frame None (Some (1010, 110)),
      frame None (Some (1020, 500)), frame None (Some (1500, 200)),
      frame None (Some (1600, 300)), frame None (Some (1700, 400))]"

section \<open>Properties\<close>

subsection \<open>Floats\<close>

lemma power2_pos: "0 < power2 n"
proof (induction n rule: power2.induct)
  case (1 n)
  show ?case
  proof (cases "n \<le> 0")
    case True
    then show ?thesis by (simp add: power2.simps)
  next
    case False
    then have "0 < power2 (n div 2)" using 1 by simp
    then show ?thesis
      using False by (subst power2.simps) (simp add: Let_def)
  qed
qed

lemma pow2_pos: "0 < pow2 e"
  by (simp add: pow2_def power2_pos)

lemma round_half_even_close: "\<bar>of_int (round_half_even q) - q\<bar> \<le> 1 / 2"
proof -
  have "of_int \<lfloor>q\<rfloor> \<le> q" and "q < of_int \<lfloor>q\<rfloor> + 1" by linarith+
  then show ?thesis by (auto simp: round_half_even_def Let_def)
qed

lemma round_half_even_nonneg: "0 \<le> q \<Longrightarrow> 0 \<le> round_half_even q"
proof -
  assume "0 \<le> q"
  then have "0 \<le> \<lfloor>q\<rfloor>" by simp
  then show ?thesis by (auto simp: round_half_even_def Let_def)
qed

text \<open>Rounding to a double keeps the sign.\<close>

lemma nearest_double_nonneg:
  assumes "0 \<le> x"
  shows "float_le (Finite 0) (nearest_double x)"
proof (cases "x = 0")
  case True
  then show ?thesis by (simp add: nearest_double_def)
next
  case False
  define q where "q = max (exponent_of x - 52) (- 1074)"
  define m where "m = round_half_even (x / pow2 q)"
  have "0 \<le> x / pow2 q" using assms pow2_pos [of q] by simp
  then have "0 \<le> m" unfolding m_def by (rule round_half_even_nonneg)
  then have "0 \<le> rat_of_int m * pow2 q" using pow2_pos [of q] by simp
  moreover have "0 < x" using assms False by simp
  ultimately show ?thesis
    using False by (simp add: nearest_double_def Let_def q_def [symmetric] m_def [symmetric])
qed

text \<open>What the helper functions compute: powers of two, the number of bits of a positive
  integer, and the binary exponent.\<close>

lemma power2_eq: "power2 n = 2 ^ nat n"
proof (induction n rule: power2.induct)
  case (1 n)
  show ?case
  proof (cases "n \<le> 0")
    case True
    then show ?thesis by (simp add: power2.simps)
  next
    case False
    then have h: "power2 (n div 2) = 2 ^ nat (n div 2)" using 1 by simp
    have "n = 2 * (n div 2) + n mod 2" by simp
    moreover have "0 \<le> n div 2" and "0 \<le> n mod 2" using False by simp_all
    ultimately have n: "nat n = 2 * nat (n div 2) + nat (n mod 2)"
      by (metis nat_add_distrib nat_mult_distrib nat_numeral zero_le_numeral mult_nonneg_nonneg)
    have "(2 :: rat) ^ nat n = 2 ^ nat (n mod 2) * (2 ^ nat (n div 2) * 2 ^ nat (n div 2))"
      by (subst n) (simp add: power_add mult_2)
    moreover have "even n \<Longrightarrow> nat (n mod 2) = 0" by (simp add: even_iff_mod_2_eq_zero)
    moreover have "odd n \<Longrightarrow> nat (n mod 2) = 1" by (simp add: odd_iff_mod_2_eq_one)
    ultimately show ?thesis
      using False h by (subst power2.simps) (auto simp: Let_def)
  qed
qed

lemma pow2_powi: "pow2 e = 2 powi e"
  by (simp add: pow2_def power2_eq power_int_def field_simps)

lemma bit_length_nonneg: "0 \<le> bit_length n"
proof (induction n rule: bit_length.induct)
  case (1 n)
  then show ?case by (subst bit_length.simps) simp
qed

lemma bit_length_int:
  "0 < n \<Longrightarrow> (2 :: int) ^ nat (bit_length n - 1) \<le> n \<and> n < 2 ^ nat (bit_length n)"
proof (induction n rule: bit_length.induct)
  case (1 n)
  define b where "b = bit_length (n div 2)"
  have bl: "bit_length n = 1 + b"
    using "1.prems" unfolding b_def by (subst bit_length.simps) simp
  have b0: "0 \<le> b" unfolding b_def by (rule bit_length_nonneg)
  show ?case
  proof (cases "n div 2 = 0")
    case True
    then have "n = 1" using "1.prems" by presburger
    moreover have "b = 0" unfolding b_def True by (simp add: bit_length.simps)
    ultimately show ?thesis unfolding bl by simp
  next
    case False
    then have pos: "0 < n div 2" using "1.prems" by presburger
    have IH: "(2 :: int) ^ nat (b - 1) \<le> n div 2" "n div 2 < 2 ^ nat b"
      using "1.IH" pos "1.prems" unfolding b_def by auto
    have bpos: "0 < b"
    proof (rule ccontr)
      assume "\<not> 0 < b"
      then have "b = 0" using b0 by simp
      then show False using IH(2) pos by simp
    qed
    have e: "nat b = Suc (nat (b - 1))" using bpos by simp
    have "(2 :: int) ^ nat b = 2 * 2 ^ nat (b - 1)" by (subst e) simp
    then have lo: "(2 :: int) ^ nat b \<le> n" using IH(1) by presburger
    have "nat (1 + b) = Suc (nat b)" using b0 by simp
    then have "(2 :: int) ^ nat (1 + b) = 2 * 2 ^ nat b" by simp
    then have hi: "n < 2 ^ nat (1 + b)" using IH(2) by presburger
    show ?thesis unfolding bl using lo hi by simp
  qed
qed

lemma bit_length_bounds:
  assumes "0 < n"
  shows "(2 :: rat) powi (bit_length n - 1) \<le> of_int n" and "of_int n < (2 :: rat) powi (bit_length n)"
proof -
  have pos: "0 < bit_length n"
    using assms bit_length_nonneg [of "n div 2"] by (subst bit_length.simps) simp
  have "rat_of_int (2 ^ nat (bit_length n - 1)) \<le> of_int n"
    using bit_length_int [OF assms] by (simp only: of_int_le_iff)
  then show "(2 :: rat) powi (bit_length n - 1) \<le> of_int n"
    using pos by (simp add: power_int_def)
  have "rat_of_int n < of_int (2 ^ nat (bit_length n))"
    using bit_length_int [OF assms] by (simp only: of_int_less_iff)
  then show "of_int n < (2 :: rat) powi (bit_length n)"
    using pos by (simp add: power_int_def)
qed

lemma exponent_of_bounds:
  assumes "x \<noteq> 0"
  shows "2 powi (exponent_of x) \<le> \<bar>x\<bar>" and "\<bar>x\<bar> < 2 powi (exponent_of x + 1)"
proof -
  obtain p q where pq: "quotient_of \<bar>x\<bar> = (p, q)" by (cases "quotient_of \<bar>x\<bar>")
  have q: "0 < q" using pq quotient_of_denom_pos by blast
  have x: "\<bar>x\<bar> = of_int p / of_int q" using pq quotient_of_div by blast
  have "0 < \<bar>x\<bar>" using assms by simp
  then have p: "0 < p" using x q by (simp add: zero_less_divide_iff)
  define d where "d = bit_length p - bit_length q"
  note bp = bit_length_bounds [OF p] and bq = bit_length_bounds [OF q]
  have qpos: "(0 :: rat) < of_int q" using q by simp
  have lower: "(2 :: rat) powi (d - 1) \<le> \<bar>x\<bar>"
  proof -
    have "(2 :: rat) powi (d - 1) = 2 powi (bit_length p - 1) / 2 powi (bit_length q)"
      unfolding d_def by (simp add: power_int_diff)
    also have "\<dots> \<le> of_int p / 2 powi (bit_length q)"
      using bp(1) by (simp add: divide_right_mono)
    also have "\<dots> \<le> of_int p / of_int q"
      using bq(2) p qpos by (intro divide_left_mono) (auto simp: less_imp_le)
    finally show ?thesis using x by simp
  qed
  have upper: "\<bar>x\<bar> < (2 :: rat) powi (d + 1)"
  proof -
    have "of_int p / rat_of_int q < 2 powi (bit_length p) / of_int q"
      using bp(2) qpos by (simp add: divide_strict_right_mono)
    also have "\<dots> \<le> 2 powi (bit_length p) / 2 powi (bit_length q - 1)"
      using bq(1) qpos by (intro divide_left_mono) auto
    also have "\<dots> = 2 powi (bit_length p - (bit_length q - 1))"
      by (simp only: power_int_diff [of "2 :: rat", simplified])
    also have "bit_length p - (bit_length q - 1) = d + 1" by (simp add: d_def)
    finally show ?thesis using x by simp
  qed
  have e: "exponent_of x = (if 2 powi d \<le> \<bar>x\<bar> then d else d - 1)"
    by (simp add: exponent_of_def pq d_def pow2_powi)
  show "2 powi (exponent_of x) \<le> \<bar>x\<bar>" using lower by (simp add: e)
  show "\<bar>x\<bar> < 2 powi (exponent_of x + 1)" using upper by (auto simp: e)
qed


lemma powi_add: "(2 :: rat) powi (a + b) = 2 powi a * 2 powi b"
  by (rule power_int_add) simp

lemma powi_pos: "(0 :: rat) < 2 powi a"
  by simp

lemma overflow_test:
  assumes "m \<noteq> 0"
  shows "(1024 < q + bit_length \<bar>m\<bar>) = ((2 :: rat) powi 1024 \<le> \<bar>of_int m * 2 powi q\<bar>)"
proof -
  define b where "b = bit_length \<bar>m\<bar>"
  have pos: "0 < \<bar>m\<bar>" using assms by simp
  have lo: "(2 :: rat) powi (b - 1) \<le> of_int \<bar>m\<bar>" and hi: "rat_of_int \<bar>m\<bar> < 2 powi b"
    using bit_length_bounds [OF pos] by (simp_all add: b_def)
  have abs: "\<bar>rat_of_int m * 2 powi q\<bar> = of_int \<bar>m\<bar> * 2 powi q"
    by (simp add: abs_mult)
  show ?thesis
  proof (cases "1024 < q + b")
    case True
    then have "(2 :: rat) powi 1024 \<le> 2 powi ((b - 1) + q)"
      by (intro power_int_increasing) auto
    also have "\<dots> = 2 powi (b - 1) * 2 powi q" by (rule powi_add)
    also have "\<dots> \<le> of_int \<bar>m\<bar> * 2 powi q"
      using lo by (intro mult_right_mono) auto
    finally show ?thesis using True by (simp add: abs b_def)
  next
    case False
    have "rat_of_int \<bar>m\<bar> * 2 powi q < 2 powi b * 2 powi q"
      using hi by (intro mult_strict_right_mono) auto
    also have "\<dots> = 2 powi (b + q)" by (rule powi_add [symmetric])
    also have "\<dots> \<le> 2 powi 1024"
      using False by (intro power_int_increasing) auto
    finally show ?thesis using False by (simp add: abs b_def)
  qed
qed

text \<open>When the result is finite it is a multiple of the unit in the last place with a
  mantissa of at most 53 bits (or \<open>2^53\<close> itself), within half a unit of the exact value.\<close>

lemma nearest_double_Finite:
  assumes "x \<noteq> 0" and "nearest_double x = Finite r"
  shows "\<exists>m. r = of_int m * 2 powi (max (exponent_of x - 52) (- 1074))
           \<and> \<bar>r - x\<bar> \<le> 2 powi (max (exponent_of x - 52) (- 1074)) / 2
           \<and> \<bar>of_int m :: rat\<bar> \<le> 2 powi 53
           \<and> \<bar>r\<bar> < 2 powi 1024"
proof -
  define q where "q = max (exponent_of x - 52) (- 1074)"
  define m where "m = round_half_even (x / pow2 q)"
  have nd: "nearest_double x =
      (if 1024 < q + bit_length \<bar>m\<bar> then (if 0 < x then PInf else NInf)
       else Finite (of_int m * pow2 q))"
    using assms(1) by (simp add: nearest_double_def Let_def q_def m_def)
  then have no: "\<not> 1024 < q + bit_length \<bar>m\<bar>" and r: "r = of_int m * 2 powi q"
    using assms(2) by (auto simp: pow2_powi split: if_splits)
  have "\<bar>rat_of_int m - x / 2 powi q\<bar> \<le> 1 / 2"
    unfolding m_def pow2_powi by (rule round_half_even_close)
  then have "\<bar>rat_of_int m - x / 2 powi q\<bar> * 2 powi q \<le> 1 / 2 * 2 powi q"
    by (intro mult_right_mono) auto
  moreover have "\<bar>rat_of_int m - x / 2 powi q\<bar> * 2 powi q = \<bar>r - x\<bar>"
  proof -
    have "\<bar>rat_of_int m - x / 2 powi q\<bar> * 2 powi q = \<bar>(rat_of_int m - x / 2 powi q) * 2 powi q\<bar>"
      by (simp add: abs_mult)
    also have "(rat_of_int m - x / 2 powi q) * 2 powi q = r - x"
      by (simp add: r left_diff_distrib)
    finally show ?thesis .
  qed
  ultimately have close: "\<bar>r - x\<bar> \<le> 2 powi q / 2" by simp
  have "\<bar>x\<bar> < 2 powi (exponent_of x + 1)" using exponent_of_bounds(2) [OF assms(1)] .
  also have "\<dots> \<le> 2 powi (53 + q)"
    unfolding q_def by (intro power_int_increasing) auto
  also have "\<dots> = 2 powi 53 * 2 powi q" by (rule powi_add)
  finally have "\<bar>x\<bar> / 2 powi q < 2 powi 53"
    by (simp add: pos_divide_less_eq)
  then have "\<bar>x / 2 powi q\<bar> < 2 powi 53" by (simp add: abs_divide)
  then have "\<bar>rat_of_int m\<bar> < 2 powi 53 + 1 / 2"
    using \<open>\<bar>rat_of_int m - x / 2 powi q\<bar> \<le> 1 / 2\<close> by linarith
  then have "\<bar>rat_of_int m\<bar> < of_int (2 ^ 53) + 1 / 2" by (simp add: power_int_def)
  then have "rat_of_int \<bar>m\<bar> < of_int (2 ^ 53 + 1)" by simp
  then have "\<bar>m\<bar> < 2 ^ 53 + 1" by (simp only: of_int_less_iff)
  then have "\<bar>m\<bar> \<le> 2 ^ 53" by simp
  then have "rat_of_int \<bar>m\<bar> \<le> of_int (2 ^ 53)" by (simp only: of_int_le_iff)
  then have mant: "\<bar>rat_of_int m\<bar> \<le> 2 powi 53" by (simp add: power_int_def)
  have fin: "\<bar>r\<bar> < 2 powi 1024"
  proof (cases "m = 0")
    case True
    then show ?thesis by (simp add: r)
  next
    case False
    then show ?thesis using overflow_test [OF False, of q] no by (simp add: r)
  qed
  show ?thesis
    using r close mant fin unfolding q_def by blast
qed

lemma nearest_double_in_range:
  assumes "\<bar>x\<bar> < 2 powi 1023"
  shows "\<exists>r. nearest_double x = Finite r"
proof (cases "x = 0")
  case True
  then show ?thesis by (simp add: nearest_double_def)
next
  case False
  define q where "q = max (exponent_of x - 52) (- 1074)"
  define m where "m = round_half_even (x / pow2 q)"
  have lt: "(2 :: rat) powi (exponent_of x) < 2 powi 1023"
    using exponent_of_bounds(1) [OF False] assms by (rule le_less_trans)
  have "exponent_of x < 1023"
  proof (rule ccontr)
    assume "\<not> exponent_of x < 1023"
    then have "(2 :: rat) powi 1023 \<le> 2 powi (exponent_of x)"
      by (intro power_int_increasing) auto
    then show False using lt by (metis not_le)
  qed
  then have q: "q \<le> 970" by (simp add: q_def)
  have "\<not> 1024 < q + bit_length \<bar>m\<bar>"
  proof (cases "m = 0")
    case True
    then show ?thesis using q by (simp add: bit_length.simps)
  next
    case m: False
    have "\<bar>rat_of_int m - x / 2 powi q\<bar> \<le> 1 / 2"
      unfolding m_def pow2_powi by (rule round_half_even_close)
    then have "\<bar>rat_of_int m\<bar> \<le> \<bar>x / 2 powi q\<bar> + 1 / 2" by linarith
    then have "\<bar>rat_of_int m\<bar> * 2 powi q \<le> (\<bar>x / 2 powi q\<bar> + 1 / 2) * 2 powi q"
      by (intro mult_right_mono) auto
    also have "\<dots> = \<bar>x\<bar> + 2 powi q / 2"
      by (simp add: abs_divide distrib_right)
    also have "\<dots> < 2 powi 1023 + 2 powi q / 2" using assms by simp
    also have "\<dots> \<le> 2 powi 1023 + 2 powi 970 / 2"
    proof -
      have "(2 :: rat) powi q \<le> 2 powi 970"
        using q by (intro power_int_increasing) auto
      then show ?thesis by (simp only: add_left_mono divide_right_mono zero_le_numeral)
    qed
    also have "\<dots> < 2 powi 1024" by (simp add: power_int_def)
    finally have "\<not> (2 :: rat) powi 1024 \<le> \<bar>rat_of_int m * 2 powi q\<bar>"
      by (simp add: abs_mult)
    then show ?thesis using overflow_test [OF m, of q] by simp
  qed
  then show ?thesis
    using False by (simp add: nearest_double_def Let_def q_def [symmetric] m_def [symmetric])
qed

lemma float_of_int_in_range:
  assumes "\<bar>n\<bar> < 2 ^ 1023"
  shows "\<exists>a. float_of_int n = Inr (Finite a)"
proof -
  have "rat_of_int \<bar>n\<bar> < of_int (2 ^ 1023)" using assms by (simp only: of_int_less_iff)
  then have "\<bar>rat_of_int n\<bar> < 2 powi 1023" by (simp add: power_int_def)
  then obtain a where "nearest_double (of_int n) = Finite a"
    using nearest_double_in_range by blast
  then show ?thesis by (simp add: float_of_int_def)
qed


lemma float_mul_nonneg:
  "0 \<le> a \<Longrightarrow> 0 \<le> v \<Longrightarrow> float_le (Finite 0) (float_mul (Finite a) (Finite v))"
  by (simp add: nearest_double_nonneg)



lemma float_le_between:
  assumes "float_le (Finite a) c" and "float_le c (Finite b)"
  shows "\<exists>v. c = Finite v \<and> a \<le> v \<and> v \<le> b"
  using assms by (cases c) simp_all

lemma double_0_2: "nearest_double (2 / 10) = Finite (3602879701896397 / 18014398509481984)"
  by code_simp

text \<open>The two divisions of the pipeline cannot raise: their divisors are not zero.\<close>

lemma float_div_above_30:
  "float_less (Finite 30) h \<Longrightarrow> float_div a h = Inr (float_quotient a h)"
  by (cases h) (auto simp: float_div_def)


lemma float_less_30_truthy: "float_less (Finite 30) h \<Longrightarrow> float_truthy h"
  by (cases h) (auto simp: float_truthy_def)

subsection \<open>The frame loop\<close>

lemma frame_loop_cancelled:
  "cancelled show_preview frames \<Longrightarrow>
   frame_loop h show_preview frames s = Inl (MeasurementResult_init ''CANCELLED'')"
  by (induction frames arbitrary: s) (auto simp: cancelled_def Let_def)

lemma frame_loop_completed:
  "\<not> cancelled show_preview frames \<Longrightarrow>
   frame_loop h show_preview frames s = Inr (run_frames h frames s)"
  by (induction frames arbitrary: s) (auto simp: cancelled_def run_frames_def Let_def)

lemma all_balls_person_step [simp]: "all_balls (person_step h pr s) = all_balls s"
  by (simp add: person_step_def Let_def split: option.splits prod.splits)

lemma length_all_balls_frame_step:
  "length (all_balls (frame_step h fr s)) =
   length (all_balls s) + (if ball_pos fr \<noteq> None then 1 else 0)"
  by (simp add: frame_step_def ball_step_def split: option.splits prod.splits)

lemma length_all_balls_run:
  "length (all_balls (run_frames h frames s)) = length (all_balls s) + observations frames"
  by (induction frames arbitrary: s)
     (simp_all add: run_frames_def observations_def length_all_balls_frame_step)

lemma process_cancelled:
  "cancelled show_preview frames \<Longrightarrow>
   process config frames h show_preview = Inr (MeasurementResult_init ''CANCELLED'')"
  by (simp add: process_def frame_loop_cancelled)

lemma process_completed:
  "\<not> cancelled show_preview frames \<Longrightarrow>
   process config frames h show_preview =
   analyze config (run_frames h frames (init_state config))"
  by (simp add: process_def frame_loop_completed)

text \<open>
  C1. A run whose video opens and which is not cancelled, with fewer than three object
  observations by the end of the stream, returns the \<^verbatim>\<open>INVALID\<close> result: its
  \<^verbatim>\<open>trajectory_points\<close> is the number of observations collected and it has no distance
  fields (so it is never \<^verbatim>\<open>VALID\<close>).
\<close>

theorem too_few_observations_invalid:
  assumes "\<not> cancelled show_preview frames" and "observations frames < 3"
  shows "process config frames h show_preview =
           Inr \<lparr>status = ''INVALID'', distance_cm = None, distance_m = None,
                calibration_scale = None, trajectory_points = observations frames,
                processing_time_ms = Finite 0,
                error_message =
                  Some ''Not enough ball detections. Adjust ball color settings.''\<rparr>
       \<and> process_video config video_path True True frames h show_preview elapsed_ms =
           Inr \<lparr>status = ''INVALID'', distance_cm = None, distance_m = None,
                calibration_scale = None, trajectory_points = observations frames,
                processing_time_ms = elapsed_ms,
                error_message =
                  Some ''Not enough ball detections. Adjust ball color settings.''\<rparr>"
proof -
  let ?s = "run_frames h frames (init_state config)"
  have len: "length (all_balls ?s) = observations frames"
    by (simp add: length_all_balls_run init_state_def)
  have "process config frames h show_preview = analyze config ?s"
    using assms(1) by (rule process_completed)
  then show ?thesis
    using assms(2) len
    by (simp add: process_video_def analyze_def MeasurementResult_init_def)
qed

theorem too_few_observations_invalid_witness:
  "\<not> cancelled True
       [frame (Some (400, Some (Finite 350))) (Some (100, 50)), frame None None,
        frame None (Some (120, 55))]
   \<and> observations
       [frame (Some (400, Some (Finite 350))) (Some (100, 50)), frame None None,
        frame None (Some (120, 55))] = 2
   \<and> process_video \<lparr>manual_scale_cm_per_px = None, manual_origin_x = None\<rparr> ''throw.mp4'' True True
       [frame (Some (400, Some (Finite 350))) (Some (100, 50)), frame None None,
        frame None (Some (120, 55))] (Finite 175) True (Finite 40) =
       Inr \<lparr>status = ''INVALID'', distance_cm = None, distance_m = None,
            calibration_scale = None, trajectory_points = 2,
            processing_time_ms = Finite 40,
            error_message =
              Some ''Not enough ball detections. Adjust ball color settings.''\<rparr>"
proof -
  let ?frames = "[frame (Some (400, Some (Finite 350))) (Some (100, 50)), frame None None,
        frame None (Some (120, 55))]"
  have nc: "\<not> cancelled True ?frames"
    by (simp add: cancelled_def quit_pressed_def frame_def)
  have ob: "observations ?frames = 2"
    by (simp add: observations_def frame_def)
  have lt: "observations ?frames < 3"
    using ob by simp
  show ?thesis
    using too_few_observations_invalid [OF nc lt,
        of "\<lparr>manual_scale_cm_per_px = None, manual_origin_x = None\<rparr>" "Finite 175"
          "''throw.mp4''" "Finite 40"] nc ob
    by simp
qed

text \<open>
  C10. A run that the key poll aborts returns the bare \<^verbatim>\<open>CANCELLED\<close> result: no
  trajectory points, no distance, no scale and no message, whatever had been collected
  or derived before (only the elapsed time is filled in by \<^verbatim>\<open>process_video\<close>).
\<close>

theorem cancelled_run_result:
  assumes "cancelled show_preview frames"
  shows "process config frames h show_preview =
           Inr \<lparr>status = ''CANCELLED'', distance_cm = None, distance_m = None,
                calibration_scale = None, trajectory_points = 0,
                processing_time_ms = Finite 0, error_message = None\<rparr>
       \<and> process_video config video_path True True frames h show_preview elapsed_ms =
           Inr \<lparr>status = ''CANCELLED'', distance_cm = None, distance_m = None,
                calibration_scale = None, trajectory_points = 0,
                processing_time_ms = elapsed_ms, error_message = None\<rparr>"
  using process_cancelled [OF assms, of config h]
  by (simp add: process_video_def MeasurementResult_init_def)

lemma scale_ball_step [simp]: "scale (ball_step bp s) = scale s"
  by (simp add: ball_step_def split: option.splits prod.splits)

lemma scale_frame_step_Some:
  "scale s = Some v \<Longrightarrow> scale (frame_step h fr s) = Some v"
  by (simp add: frame_step_def person_step_def Let_def split: option.splits prod.splits)

lemma scale_frame_step_None:
  "scale s = None \<Longrightarrow> scale (frame_step h fr s) = derived_scale h (pose_result fr)"
  by (auto simp: frame_step_def person_step_def derived_scale_def Let_def float_less_30_truthy
           split: option.splits prod.splits)

lemma derived_scale_Some:
  assumes "derived_scale h pr = Some c"
  shows "\<exists>px ph v. pr = Some (px, Some ph) \<and> float_less (Finite 30) ph
           \<and> float_div h ph = Inr c \<and> c = Finite v \<and> 2 / 10 \<le> v \<and> v \<le> 15 / 10"
proof -
  obtain px ph where pr: "pr = Some (px, Some ph)" and gt: "float_less (Finite 30) ph"
    and lo: "float_le (nearest_double (2 / 10)) (float_quotient h ph)"
    and hi: "float_le (float_quotient h ph) (Finite (15 / 10))"
    and c: "c = float_quotient h ph"
    using assms by (auto simp: derived_scale_def split: option.splits prod.splits if_splits)
  obtain v where v: "c = Finite v"
    and "3602879701896397 / 18014398509481984 \<le> v" and "v \<le> 15 / 10"
    using float_le_between [OF lo [unfolded double_0_2] hi] c by auto
  then have "2 / 10 \<le> v" by simp
  moreover have "float_div h ph = Inr c"
    using gt c by (simp add: float_div_above_30)
  ultimately show ?thesis
    using pr gt v \<open>v \<le> 15 / 10\<close> by blast
qed

lemma scale_run_Some:
  "scale s = Some v \<Longrightarrow> scale (run_frames h frames s) = Some v"
  by (induction frames arbitrary: s) (simp_all add: run_frames_def scale_frame_step_Some)

lemma scale_run_None:
  "scale s = None \<Longrightarrow> scale (run_frames h frames s) = first_derived_scale h frames"
proof (induction frames arbitrary: s)
  case Nil
  then show ?case by (simp add: run_frames_def)
next
  case (Cons fr frs)
  show ?case
  proof (cases "derived_scale h (pose_result fr)")
    case None
    then have "scale (frame_step h fr s) = None"
      using Cons.prems by (simp add: scale_frame_step_None)
    then have "scale (run_frames h frs (frame_step h fr s)) = first_derived_scale h frs"
      by (rule Cons.IH)
    then show ?thesis using None by (simp add: run_frames_def)
  next
    case (Some v)
    then have "scale (frame_step h fr s) = Some v"
      using Cons.prems by (simp add: scale_frame_step_None)
    then have "scale (run_frames h frs (frame_step h fr s)) = Some v"
      by (rule scale_run_Some)
    then show ?thesis using Some by (simp add: run_frames_def)
  qed
qed

lemma run_frames_append:
  "run_frames h (xs @ ys) s = run_frames h ys (run_frames h xs s)"
  by (simp add: run_frames_def)

lemma scale_run_take_mono:
  assumes "i \<le> j" and "scale (run_frames h (take i frames) s) = Some v"
  shows "scale (run_frames h (take j frames) s) = Some v"
proof -
  have "take j frames = take i frames @ take (j - i) (drop i frames)"
    using assms(1) by (metis le_add_diff_inverse take_add)
  then show ?thesis
    using assms(2) by (simp add: run_frames_append scale_run_Some)
qed

text \<open>
  C3. Within a run the scale is taken from a person signal at most once. A frame leaves a
  scale that is set as it is; while none is set, a frame sets exactly the scale its person
  signal yields by itself, if any (pixel height above 30 and the quotient, a finite float,
  in \<open>[0.2, 1.5]\<close>), and otherwise leaves it unset for later frames. So without a manual scale the scale after
  the frames is the first such value, and a scale present after a prefix of the frames is
  the scale after every longer prefix.
\<close>

theorem scale_first_valid_wins:
  "(scale s = Some v \<longrightarrow> scale (frame_step h fr s) = Some v)
   \<and> (scale s = None \<longrightarrow> scale (frame_step h fr s) = derived_scale h (pose_result fr))
   \<and> (derived_scale h pr = Some c \<longrightarrow>
        (\<exists>px ph v. pr = Some (px, Some ph) \<and> float_less (Finite 30) ph
           \<and> float_div h ph = Inr c \<and> c = Finite v \<and> 2 / 10 \<le> v \<and> v \<le> 15 / 10))
   \<and> (manual_scale_cm_per_px config = None \<longrightarrow>
        scale (run_frames h frames (init_state config)) = first_derived_scale h frames)
   \<and> (i \<le> j \<and> scale (run_frames h (take i frames) (init_state config)) = Some v \<longrightarrow>
        scale (run_frames h (take j frames) (init_state config)) = Some v)"
proof (intro conjI impI)
  show "scale (frame_step h fr s) = Some v" if "scale s = Some v"
    using that by (rule scale_frame_step_Some)
  show "scale (frame_step h fr s) = derived_scale h (pose_result fr)" if "scale s = None"
    using that by (rule scale_frame_step_None)
  show "\<exists>px ph v. pr = Some (px, Some ph) \<and> float_less (Finite 30) ph
           \<and> float_div h ph = Inr c \<and> c = Finite v \<and> 2 / 10 \<le> v \<and> v \<le> 15 / 10"
    if "derived_scale h pr = Some c"
    using that by (rule derived_scale_Some)
  show "scale (run_frames h frames (init_state config)) = first_derived_scale h frames"
    if "manual_scale_cm_per_px config = None"
    using that by (simp add: scale_run_None init_state_def)
  show "scale (run_frames h (take j frames) (init_state config)) = Some v"
    if "i \<le> j \<and> scale (run_frames h (take i frames) (init_state config)) = Some v"
    using that scale_run_take_mono by blast
qed


theorem scale_first_valid_wins_witness:
  "scale (run_frames (Finite 175)
       [frame (Some (400, Some (Finite 20))) None, frame (Some (400, Some (Finite 1000))) None,
        frame (Some (400, Some (Finite 350))) None, frame (Some (400, Some (Finite 175))) None]
       (init_state \<lparr>manual_scale_cm_per_px = None, manual_origin_x = None\<rparr>)) = Some (Finite (1 / 2))
   \<and> derived_scale (Finite 175) (Some (400, Some (Finite 20))) = None
   \<and> derived_scale (Finite 175) (Some (400, Some (Finite 1000))) = None
   \<and> derived_scale (Finite 175) (Some (400, Some (Finite 350))) = Some (Finite (1 / 2))
   \<and> derived_scale (Finite 175) (Some (400, Some (Finite 175))) = Some (Finite 1)
   \<and> scale (frame_step (Finite 175) (frame (Some (400, Some (Finite 175))) None)
        \<lparr>scale = Some (Finite (1 / 2)), all_balls = [], person_x_hint = Some 400, frame_count = 3\<rparr>)
       = Some (Finite (1 / 2))
   \<and> scale (frame_step (Finite 175) (frame (Some (400, Some (Finite 350))) None)
        \<lparr>scale = None, all_balls = [], person_x_hint = Some 400, frame_count = 2\<rparr>)
       = Some (Finite (1 / 2))"
proof -
  let ?frames = "[frame (Some (400, Some (Finite 20))) None, frame (Some (400, Some (Finite 1000))) None,
        frame (Some (400, Some (Finite 350))) None, frame (Some (400, Some (Finite 175))) None]"
  let ?config = "\<lparr>manual_scale_cm_per_px = None, manual_origin_x = None\<rparr>"
  let ?s3 = "\<lparr>scale = Some (Finite (1 / 2)), all_balls = [], person_x_hint = Some 400, frame_count = 3\<rparr>"
  let ?s2 = "\<lparr>scale = None, all_balls = [], person_x_hint = Some 400, frame_count = 2\<rparr>"
  have d1: "derived_scale (Finite 175) (Some (400, Some (Finite 20))) = None"
    by code_simp
  have d2: "derived_scale (Finite 175) (Some (400, Some (Finite 1000))) = None"
    by code_simp
  have d3: "derived_scale (Finite 175) (Some (400, Some (Finite 350))) = Some (Finite (1 / 2))"
    by code_simp
  have d4: "derived_scale (Finite 175) (Some (400, Some (Finite 175))) = Some (Finite 1)"
    by code_simp
  have first: "first_derived_scale (Finite 175) ?frames = Some (Finite (1 / 2))"
    by (simp add: frame_def d1 d2 d3)
  have run: "scale (run_frames (Finite 175) ?frames (init_state ?config)) = Some (Finite (1 / 2))"
    using scale_first_valid_wins [of _ _ "Finite 175" _ _ _ ?config ?frames 0 0] first by simp
  have keep: "scale (frame_step (Finite 175) (frame (Some (400, Some (Finite 175))) None) ?s3) = Some (Finite (1 / 2))"
    using scale_first_valid_wins
      [of ?s3 "Finite (1 / 2)" "Finite 175" "frame (Some (400, Some (Finite 175))) None" _ _ ?config "[]" 0 0]
    by simp
  have set: "scale (frame_step (Finite 175) (frame (Some (400, Some (Finite 350))) None) ?s2) = Some (Finite (1 / 2))"
    using scale_first_valid_wins
      [of ?s2 _ "Finite 175" "frame (Some (400, Some (Finite 350))) None" _ _ ?config "[]" 0 0] d3
    by (simp add: frame_def)
  show ?thesis
    using d1 d2 d3 d4 run keep set by simp
qed

theorem cancelled_run_result_witness:
  "cancelled True
     [frame (Some (400, Some (Finite 350))) (Some (100, 50)), frame None (Some (120, 55)),
      frame None (Some (300, 400)),
      \<lparr>pose_result = None, ball_pos = None, wait_key = 113\<rparr>]
   \<and> observations
     [frame (Some (400, Some (Finite 350))) (Some (100, 50)), frame None (Some (120, 55)),
      frame None (Some (300, 400))] = 3
   \<and> scale (run_frames (Finite 175)
     [frame (Some (400, Some (Finite 350))) (Some (100, 50)), frame None (Some (120, 55)),
      frame None (Some (300, 400))]
     (init_state \<lparr>manual_scale_cm_per_px = None, manual_origin_x = None\<rparr>)) = Some (Finite (1 / 2))
   \<and> process_video \<lparr>manual_scale_cm_per_px = None, manual_origin_x = None\<rparr> ''throw.mp4'' True True
     [frame (Some (400, Some (Finite 350))) (Some (100, 50)), frame None (Some (120, 55)),
      frame None (Some (300, 400)),
      \<lparr>pose_result = None, ball_pos = None, wait_key = 113\<rparr>] (Finite 175) True (Finite 40) =
     Inr \<lparr>status = ''CANCELLED'', distance_cm = None, distance_m = None,
          calibration_scale = None, trajectory_points = 0,
          processing_time_ms = Finite 40, error_message = None\<rparr>"
proof -
  let ?pre = "[frame (Some (400, Some (Finite 350))) (Some (100, 50)), frame None (Some (120, 55)),
      frame None (Some (300, 400))]"
  let ?frames = "?pre @ [\<lparr>pose_result = None, ball_pos = None, wait_key = 113\<rparr>]"
  let ?config = "\<lparr>manual_scale_cm_per_px = None, manual_origin_x = None\<rparr>"
  have c: "cancelled True ?frames"
    by (simp add: cancelled_def quit_pressed_def frame_def)
  have ob: "observations ?pre = 3"
    by (simp add: observations_def frame_def)
  have "first_derived_scale (Finite 175) ?pre = Some (Finite (1 / 2))"
    by code_simp
  then have sc: "scale (run_frames (Finite 175) ?pre (init_state ?config)) = Some (Finite (1 / 2))"
    by (simp add: scale_run_None init_state_def)
  show ?thesis
    using cancelled_run_result [OF c, of ?config "Finite 175" "''throw.mp4''" "Finite 40"] c ob sc by simp
qed

subsection \<open>The landing\<close>

lemma max_from_split:
  "\<exists>ys zs. best # xs = ys @ max_from k best xs # zs
      \<and> (\<forall>y\<in>set ys. k y < k (max_from k best xs))
      \<and> (\<forall>z\<in>set zs. k z \<le> k (max_from k best xs))"
proof (induction xs arbitrary: best)
  case Nil
  have "[best] = [] @ best # []" by simp
  then show ?case by force
next
  case (Cons x xs)
  define b where "b = (if k best < k x then x else best)"
  define m where "m = max_from k b xs"
  obtain ys zs where split: "b # xs = ys @ m # zs"
    and before: "\<forall>y\<in>set ys. k y < k m" and after: "\<forall>z\<in>set zs. k z \<le> k m"
    using Cons.IH [of b] unfolding m_def by blast
  have m: "max_from k best (x # xs) = m" by (simp add: m_def b_def)
  have "b \<in> set (ys @ m # zs)" using split by (metis list.set_intros(1))
  then have b_le: "k b \<le> k m" using before after by (auto simp: less_imp_le)
  have "\<exists>ys zs. best # x # xs = ys @ m # zs
      \<and> (\<forall>y\<in>set ys. k y < k m) \<and> (\<forall>z\<in>set zs. k z \<le> k m)"
  proof (cases "k best < k x")
    case True
    then have "b = x" by (simp add: b_def)
    then have "best # x # xs = (best # ys) @ m # zs" using split by simp
    moreover have "k best < k m" using True b_le \<open>b = x\<close> by simp
    then have "\<forall>y\<in>set (best # ys). k y < k m" using before by simp
    ultimately show ?thesis using after by blast
  next
    case False
    then have "b = best" by (simp add: b_def)
    show ?thesis
    proof (cases ys)
      case Nil
      then have "m = best" and "zs = xs" using split \<open>b = best\<close> by simp_all
      then have "best # x # xs = [] @ m # (x # zs)" by simp
      moreover have "k x \<le> k m" using False \<open>m = best\<close> by simp
      then have "\<forall>z\<in>set (x # zs). k z \<le> k m" using after by simp
      moreover have "\<forall>y\<in>set ([] :: 'a list). k y < k m" by simp
      ultimately show ?thesis by blast
    next
      case (Cons y ys')
      then have y: "y = best" and rest: "xs = ys' @ m # zs"
        using split \<open>b = best\<close> by simp_all
      have "best # x # xs = (best # x # ys') @ m # zs" using rest by simp
      moreover have "k best < k m" using before Cons y by simp
      then have "\<forall>y\<in>set (best # x # ys'). k y < k m"
        using False before Cons by auto
      ultimately show ?thesis using after by blast
    qed
  qed
  then show ?case unfolding m .
qed

lemma upt_split_at:
  assumes "[0 ..< n] = ys @ m # zs"
  shows "m = length ys \<and> m < n \<and> set ys = {0 ..< m} \<and> set zs = {Suc m ..< n}"
proof -
  have "length [0 ..< n] = length (ys @ m # zs)" using assms by simp
  then have lt: "length ys < n" by simp
  then have "[0 ..< n] ! length ys = 0 + length ys" by (intro nth_upt) simp
  moreover have "(ys @ m # zs) ! length ys = m" by simp
  ultimately have m: "m = length ys" using assms by simp
  have "take m [0 ..< n] = take m (ys @ m # zs)" using assms by simp
  then have ys: "ys = [0 ..< m]" using lt m by (simp add: take_upt)
  have "drop (Suc m) [0 ..< n] = drop (Suc m) (ys @ m # zs)" using assms by simp
  then have zs: "zs = [Suc m ..< n]" using m by simp
  have "set ys = {0 ..< m}" by (subst ys) simp
  moreover have "set zs = {Suc m ..< n}" by (subst zs) simp
  ultimately show ?thesis using m lt by simp
qed

lemma py_max_upt:
  assumes "0 < n"
  shows "\<exists>i<n. py_max k [0 ..< n] = Some i \<and> (\<forall>j<n. k j \<le> k i) \<and> (\<forall>j<i. k j < k i)"
proof -
  define m where "m = max_from k 0 [1 ..< n]"
  have upt: "[0 ..< n] = 0 # [1 ..< n]" using assms by (simp add: upt_conv_Cons)
  obtain ys zs where split: "0 # [1 ..< n] = ys @ m # zs"
    and before: "\<forall>y\<in>set ys. k y < k m" and after: "\<forall>z\<in>set zs. k z \<le> k m"
    using max_from_split [of 0 "[1 ..< n]" k] unfolding m_def by blast
  have at: "m < n \<and> set ys = {0 ..< m} \<and> set zs = {Suc m ..< n}"
    using upt_split_at [of n ys m zs] split upt by simp
  have "k j \<le> k m" if "j < n" for j
  proof -
    consider "j < m" | "j = m" | "Suc m \<le> j" by linarith
    then show ?thesis
    proof cases
      case 1 then show ?thesis using before at by (simp add: less_imp_le)
    next
      case 2 then show ?thesis by simp
    next
      case 3 then show ?thesis using after at that by simp
    qed
  qed
  moreover have "k j < k m" if "j < m" for j using before at that by simp
  moreover have "py_max k [0 ..< n] = Some m" using upt by (simp add: py_max_def m_def)
  ultimately show ?thesis using at by blast
qed


text \<open>
  C5. On a non-empty trajectory the landing is the ball of largest \<open>y\<close>: no ball lies
  lower in the image, and every ball before it lies strictly higher, so among several
  balls of largest \<open>y\<close> it is the first. Being the value of a function of the trajectory,
  it is the same whenever the trajectory is.
\<close>

theorem landing_is_first_max:
  assumes "balls \<noteq> []"
  shows "\<exists>i<length balls. landing_idx balls = Some i \<and> landing balls = Some (balls ! i)
           \<and> (\<forall>j<length balls. ball_y (balls ! j) \<le> ball_y (balls ! i))
           \<and> (\<forall>j<i. ball_y (balls ! j) < ball_y (balls ! i))"
proof -
  have "0 < length balls" using assms by simp
  then obtain i where "i < length balls"
    and "py_max (\<lambda>i. ball_y (balls ! i)) [0 ..< length balls] = Some i"
    and "\<forall>j<length balls. ball_y (balls ! j) \<le> ball_y (balls ! i)"
    and "\<forall>j<i. ball_y (balls ! j) < ball_y (balls ! i)"
    using py_max_upt [of "length balls" "\<lambda>i. ball_y (balls ! i)"] by blast
  then show ?thesis by (simp add: landing_idx_def landing_def)
qed

theorem landing_is_first_max_witness:
  "[(100, 50, 1), (300, 400, 2), (120, 55, 3), (500, 400, 4)] \<noteq> ([] :: ball list)
   \<and> landing [(100, 50, 1), (300, 400, 2), (120, 55, 3), (500, 400, 4)] = Some (300, 400, 2)
   \<and> (\<exists>i<length [(100, 50, 1), (300, 400, 2), (120, 55, 3), (500, 400, 4 :: nat)].
         landing_idx [(100, 50, 1), (300, 400, 2), (120, 55, 3), (500, 400, 4)] = Some i)"
proof -
  let ?balls = "[(100, 50, 1), (300, 400, 2), (120, 55, 3), (500, 400, 4)] :: ball list"
  have ne: "?balls \<noteq> []" by simp
  have l: "landing ?balls = Some (300, 400, 2)"
    by (simp add: landing_def landing_idx_def py_max_def ball_y_def upt_conv_Cons)
  have "\<exists>i<length ?balls. landing_idx ?balls = Some i"
    using landing_is_first_max [OF ne] by blast
  then show ?thesis
    using l by simp
qed


subsection \<open>The origin\<close>

lemma find_filter_first:
  "find P xs = Some b \<Longrightarrow> filter P xs \<noteq> [] \<and> filter P xs ! 0 = b"
  by (induction xs) (auto split: if_splits)

lemma origin_strategies_near:
  assumes "find (\<lambda>b. \<bar>ball_x b - p\<bar> < 200) balls = Some b"
  shows "origin_strategies balls (Some p) = (ball_x b, balls)"
  using find_filter_first [OF assms] by (simp add: origin_strategies_def Let_def)

text \<open>
  C6. With at least three balls, no manual origin and a person hint, if some ball has its
  \<open>x\<close> within 200 pixels of the hint (the source tests \<^verbatim>\<open>abs(x - person_x_hint) < 200\<close>),
  the resolved origin is the \<open>x\<close> of the first such ball in frame order, and the
  trajectory is left as it is.
\<close>

theorem origin_first_ball_near_person:
  assumes "3 \<le> length balls" and "manual_origin_x config = None"
    and "i < length balls" and "\<bar>ball_x (balls ! i) - p\<bar> < 200"
    and "\<forall>j<i. \<not> \<bar>ball_x (balls ! j) - p\<bar> < 200"
  shows "resolve_origin config balls (Some p) = (ball_x (balls ! i), balls)"
proof -
  have "find (\<lambda>b. \<bar>ball_x b - p\<bar> < 200) balls = Some (balls ! i)"
    using assms(3-5) unfolding find_Some_iff by blast
  then have "origin_strategies balls (Some p) = (ball_x (balls ! i), balls)"
    by (rule origin_strategies_near)
  then show ?thesis
    using assms(2) by (simp add: resolve_origin_def manual_override_def)
qed

theorem origin_first_ball_near_person_witness:
  "3 \<le> length [(100, 50, 1), (300, 55, 2), (320, 400, 3) :: ball]
   \<and> \<bar>ball_x ([(100, 50, 1), (300, 55, 2), (320, 400, 3)] ! 1) - 450\<bar> < 200
   \<and> \<not> \<bar>ball_x ([(100, 50, 1), (300, 55, 2), (320, 400, 3)] ! 0) - 450\<bar> < 200
   \<and> resolve_origin \<lparr>manual_scale_cm_per_px = None, manual_origin_x = None\<rparr>
        [(100, 50, 1), (300, 55, 2), (320, 400, 3)] (Some 450)
       = (300, [(100, 50, 1), (300, 55, 2), (320, 400, 3)])"
proof -
  let ?balls = "[(100, 50, 1), (300, 55, 2), (320, 400, 3)] :: ball list"
  let ?config = "\<lparr>manual_scale_cm_per_px = None, manual_origin_x = None\<rparr>"
  have len: "3 \<le> length ?balls" by simp
  have m: "manual_origin_x ?config = None" by simp
  have i: "(1::nat) < length ?balls" by simp
  have near: "\<bar>ball_x (?balls ! 1) - 450\<bar> < 200" by (simp add: ball_x_def)
  have far0: "\<not> \<bar>ball_x (?balls ! 0) - 450\<bar> < 200" by (simp add: ball_x_def)
  then have far: "\<forall>j<1. \<not> \<bar>ball_x (?balls ! j) - 450\<bar> < 200" by simp
  show ?thesis
    using origin_first_ball_near_person [OF len m i near far] near far0
    by (simp add: ball_x_def)
qed

lemma count_of_bump:
  "count_of (bump k' pc) k = count_of pc k + (if k = k' then 1 else 0)"
  by (induction pc) auto

lemma map_fst_bump:
  "map fst (bump k pc) = (if k \<in> set (map fst pc) then map fst pc else map fst pc @ [k])"
proof (induction pc)
  case Nil
  show ?case by simp
next
  case (Cons a pc)
  obtain k' c where a: "a = (k', c)" by (cases a)
  show ?case
    unfolding a using Cons.IH by (cases "k = k'") simp_all
qed

lemma keys_bump: "set (map fst (bump k pc)) = insert k (set (map fst pc))"
  by (auto simp: map_fst_bump)

lemma count_of_fold:
  "count_of (fold (\<lambda>b pc. bump (bucket_of (ball_x b)) pc) balls pc) k
   = count_of pc k + bin_count balls k"
  by (induction balls arbitrary: pc) (simp_all add: bin_count_def count_of_bump)

lemma keys_fold:
  "set (map fst (fold (\<lambda>b pc. bump (bucket_of (ball_x b)) pc) balls pc))
   = set (map fst pc) \<union> (\<lambda>b. bucket_of (ball_x b)) ` set balls"
proof (induction balls arbitrary: pc)
  case Nil
  then show ?case by simp
next
  case (Cons b balls)
  show ?case
    unfolding fold_simps Cons.IH keys_bump by auto
qed

lemma count_of_position_counts: "count_of (position_counts balls) k = bin_count balls k"
  by (simp add: position_counts_def count_of_fold)

lemma keys_position_counts:
  "set (map fst (position_counts balls)) = (\<lambda>b. bucket_of (ball_x b)) ` set balls"
  unfolding position_counts_def keys_fold by simp

lemma bin_count_zero: "k \<notin> (\<lambda>b. bucket_of (ball_x b)) ` set balls \<Longrightarrow> bin_count balls k = 0"
  by (auto simp: bin_count_def filter_empty_conv)

lemma static_bucket_modal:
  assumes "balls \<noteq> []"
  shows "static_bucket_of (position_counts balls) \<in> (\<lambda>b. bucket_of (ball_x b)) ` set balls
       \<and> (\<forall>k. bin_count balls k \<le> bin_count balls (static_bucket_of (position_counts balls)))"
proof -
  define pc where "pc = position_counts balls"
  have keys: "set (map fst pc) = (\<lambda>b. bucket_of (ball_x b)) ` set balls"
    unfolding pc_def by (rule keys_position_counts)
  then have "map fst pc \<noteq> []" using assms by auto
  then obtain k0 ks where ks: "map fst pc = k0 # ks" by (cases "map fst pc") auto
  define m where "m = max_from (count_of pc) k0 ks"
  have sb: "static_bucket_of pc = m"
    by (simp add: static_bucket_of_def py_max_def ks m_def)
  obtain ys zs where split: "k0 # ks = ys @ m # zs"
    and before: "\<forall>y\<in>set ys. count_of pc y < count_of pc m"
    and after: "\<forall>z\<in>set zs. count_of pc z \<le> count_of pc m"
    using max_from_split [of k0 ks "count_of pc"] unfolding m_def by blast
  have mem: "m \<in> set (map fst pc)" using split ks by simp
  have le: "count_of pc k \<le> count_of pc m" if "k \<in> set (map fst pc)" for k
  proof -
    have "k \<in> set ys \<or> k = m \<or> k \<in> set zs" using that split ks by auto
    then show ?thesis using before after by (auto simp: less_imp_le)
  qed
  have "bin_count balls k \<le> bin_count balls m" for k
  proof (cases "k \<in> set (map fst pc)")
    case True
    then show ?thesis using le count_of_position_counts [of balls] by (simp add: pc_def)
  next
    case False
    then show ?thesis using keys bin_count_zero by simp
  qed
  then show ?thesis using mem keys sb by (simp add: pc_def)
qed

lemma share_threshold:
  "(rat_of_nat n * (4 / 10) < rat_of_nat c) = (40 * n < 100 * c)"
proof -
  have "(rat_of_nat n * (4 / 10) < rat_of_nat c) = (rat_of_nat (4 * n) < rat_of_nat (10 * c))"
    by (simp add: field_simps)
  also have "\<dots> = (4 * n < 10 * c)" by (simp only: of_nat_less_iff)
  finally show ?thesis by simp
qed

lemma static_filter_eq:
  "static_filter balls origin_x =
     (let B = static_bucket_of (position_counts balls);
          kept = filter (\<lambda>b. \<not> \<bar>ball_x b - (B + 25)\<bar> \<le> 75) balls
      in if 40 * length balls < 100 * bin_count balls B \<and> 3 \<le> length kept
         then (kept, ball_x (kept ! 0)) else (balls, origin_x))"
proof -
  have "(\<lambda>b. 75 < \<bar>ball_x b - k - 25\<bar>) = (\<lambda>b. \<not> \<bar>ball_x b - (k + 25)\<bar> \<le> 75)" for k
    by (auto simp: fun_eq_iff)
  then show ?thesis
    by (simp add: static_filter_def Let_def share_threshold count_of_position_counts)
qed

lemma bucket_of_bounds: "bucket_of x \<le> x \<and> x < bucket_of x + 50 \<and> bucket_of x mod 50 = 0"
  unfolding bucket_of_def by presburger


lemma origin_strategies_far:
  assumes "\<forall>b\<in>set balls. \<not> \<bar>ball_x b - p\<bar> < 200"
  shows "origin_strategies balls (Some p) =
           (movement_scan (fst (static_filter balls (ball_x (balls ! 0))))
              [0 ..< length (fst (static_filter balls (ball_x (balls ! 0)))) - 3]
              (snd (static_filter balls (ball_x (balls ! 0)))),
            fst (static_filter balls (ball_x (balls ! 0))))"
proof -
  have "filter (\<lambda>b. \<bar>ball_x b - p\<bar> < 200) balls = []"
    using assms by (simp add: filter_empty_conv)
  then show ?thesis
    by (simp add: origin_strategies_def Let_def split_beta)
qed

lemma fst_static_filter:
  "fst (static_filter balls origin_x) =
     (let B = static_bucket_of (position_counts balls);
          kept = filter (\<lambda>b. \<not> \<bar>ball_x b - (B + 25)\<bar> \<le> 75) balls
      in if 40 * length balls < 100 * bin_count balls B \<and> 3 \<le> length kept
         then kept else balls)"
  by (simp add: static_filter_eq Let_def)

text \<open>
  C8. With a person hint and no ball within 200 pixels of it, the \<open>x\<close> of every ball is
  counted in its bin of width 50 (the bin \<open>k\<close> holds \<open>k \<le> x < k + 50\<close>). The static
  bucket is a modal bin: it holds a ball and no bin holds more. If it holds more than 40%
  of the balls, every ball within 75 pixels of its centre \<open>k + 25\<close> is dropped from the
  trajectory, provided that at least three balls remain; otherwise the trajectory is kept
  as it is.
\<close>

theorem static_cluster_filter:
  assumes "balls \<noteq> []" and "\<forall>b\<in>set balls. \<not> \<bar>ball_x b - p\<bar> < 200"
  shows "(\<forall>k. bin_count balls k \<le> bin_count balls (static_bucket_of (position_counts balls)))
     \<and> (\<exists>b\<in>set balls. bucket_of (ball_x b) = static_bucket_of (position_counts balls))
     \<and> snd (origin_strategies balls (Some p)) =
        (let B = static_bucket_of (position_counts balls);
             kept = filter (\<lambda>b. \<not> \<bar>ball_x b - (B + 25)\<bar> \<le> 75) balls
         in if 40 * length balls < 100 * bin_count balls B \<and> 3 \<le> length kept
            then kept else balls)"
proof (intro conjI)
  show "\<forall>k. bin_count balls k \<le> bin_count balls (static_bucket_of (position_counts balls))"
    using static_bucket_modal [OF assms(1)] by blast
  show "\<exists>b\<in>set balls. bucket_of (ball_x b) = static_bucket_of (position_counts balls)"
    using static_bucket_modal [OF assms(1)] by auto
  show "snd (origin_strategies balls (Some p)) =
        (let B = static_bucket_of (position_counts balls);
             kept = filter (\<lambda>b. \<not> \<bar>ball_x b - (B + 25)\<bar> \<le> 75) balls
         in if 40 * length balls < 100 * bin_count balls B \<and> 3 \<le> length kept
            then kept else balls)"
    unfolding origin_strategies_far [OF assms(2)] snd_conv by (rule fst_static_filter)
qed


theorem static_cluster_filter_witness:
  "static_cluster_balls \<noteq> []
   \<and> list_all (\<lambda>b. \<not> \<bar>ball_x b - 100\<bar> < 200) static_cluster_balls
   \<and> static_bucket_of (position_counts static_cluster_balls) = 1000
   \<and> bin_count static_cluster_balls 1000 = 3
   \<and> snd (origin_strategies static_cluster_balls (Some 100)) =
       [(1500, 200, 4), (1600, 300, 5), (1700, 400, 6)]
   \<and> snd (origin_strategies (take 4 static_cluster_balls) (Some 100)) =
       take 4 static_cluster_balls"
proof -
  have ne: "static_cluster_balls \<noteq> []" by code_simp
  have near: "list_all (\<lambda>b. \<not> \<bar>ball_x b - 100\<bar> < 200) static_cluster_balls"
    by code_simp
  then have far: "\<forall>b\<in>set static_cluster_balls. \<not> \<bar>ball_x b - 100\<bar> < 200"
    by (simp add: list_all_iff)
  have B: "static_bucket_of (position_counts static_cluster_balls) = 1000" by code_simp
  have cnt: "bin_count static_cluster_balls 1000 = 3" by code_simp
  have len: "length static_cluster_balls = 6" by code_simp
  have kept: "filter (\<lambda>b. \<not> \<bar>ball_x b - (1000 + 25)\<bar> \<le> 75) static_cluster_balls
      = [(1500, 200, 4), (1600, 300, 5), (1700, 400, 6)]" by code_simp
  have "snd (origin_strategies static_cluster_balls (Some 100)) =
        (let B = static_bucket_of (position_counts static_cluster_balls);
             kept = filter (\<lambda>b. \<not> \<bar>ball_x b - (B + 25)\<bar> \<le> 75) static_cluster_balls
         in if 40 * length static_cluster_balls < 100 * bin_count static_cluster_balls B
               \<and> 3 \<le> length kept
            then kept else static_cluster_balls)"
    using static_cluster_filter [OF ne far] by blast
  then have r6: "snd (origin_strategies static_cluster_balls (Some 100)) =
       [(1500, 200, 4), (1600, 300, 5), (1700, 400, 6)]"
    unfolding Let_def B cnt len kept by simp
  have ne4: "take 4 static_cluster_balls \<noteq> []" by code_simp
  have far4: "\<forall>b\<in>set (take 4 static_cluster_balls). \<not> \<bar>ball_x b - 100\<bar> < 200"
    using far by (meson in_set_takeD)
  have B4: "static_bucket_of (position_counts (take 4 static_cluster_balls)) = 1000"
    by code_simp
  have kept4: "length (filter (\<lambda>b. \<not> \<bar>ball_x b - (1000 + 25)\<bar> \<le> 75)
      (take 4 static_cluster_balls)) = 1" by code_simp
  have "snd (origin_strategies (take 4 static_cluster_balls) (Some 100)) =
        (let B = static_bucket_of (position_counts (take 4 static_cluster_balls));
             kept = filter (\<lambda>b. \<not> \<bar>ball_x b - (B + 25)\<bar> \<le> 75)
                      (take 4 static_cluster_balls)
         in if 40 * length (take 4 static_cluster_balls)
                 < 100 * bin_count (take 4 static_cluster_balls) B
               \<and> 3 \<le> length kept
            then kept else take 4 static_cluster_balls)"
    using static_cluster_filter [OF ne4 far4] by blast
  then have r4: "snd (origin_strategies (take 4 static_cluster_balls) (Some 100)) =
       take 4 static_cluster_balls"
    unfolding Let_def B4 kept4 by simp
  show ?thesis
    using ne near B cnt r6 r4 by simp
qed

subsection \<open>The trajectory after the filter\<close>

lemma landing_Some:
  assumes "balls \<noteq> []"
  shows "\<exists>lx ly lf. landing balls = Some (lx, ly, lf)"
proof -
  obtain i where "landing balls = Some (balls ! i)"
    using max_from_split assms py_max_upt [of "length balls" "\<lambda>i. ball_y (balls ! i)"]
    by (auto simp: landing_def landing_idx_def)
  then show ?thesis by (cases "balls ! i") auto
qed

lemma analyze_valid:
  assumes "3 \<le> length (all_balls s)"
    and "resolve_origin config (all_balls s) (person_x_hint s) = (ox, balls)"
    and "landing balls = Some (lx, ly, lf)"
  shows "analyze config s =
     (case float_of_int \<bar>lx - ox\<bar> of
        Inl e \<Rightarrow> Inl e
      | Inr p \<Rightarrow>
          Inr \<lparr>status = ''VALID'',
               distance_cm = Some (py_round (float_mul p (final_scale (scale s))) 2),
               distance_m =
                 Some (py_round
                   (float_quotient (float_mul p (final_scale (scale s))) (Finite 100)) 3),
               calibration_scale = Some (final_scale (scale s)),
               trajectory_points = length balls, processing_time_ms = Finite 0,
               error_message = None\<rparr>)"
  using assms
  by (simp add: analyze_def Let_def MeasurementResult_init_def split: sum.splits)

text \<open>
  C9. When the static-cluster filter takes effect in a run (a hint, no ball near it, a
  static bucket with more than 40% of the balls, at least three balls left), the filtered
  list is the trajectory for the rest of the run: it is what the origin resolution leaves
  in \<^verbatim>\<open>all_balls\<close>, the landing is the arg-max over it, and \<^verbatim>\<open>trajectory_points\<close> of the
  \<^verbatim>\<open>VALID\<close> result is its length, strictly below the number of observations collected.
  (The run ends with \<^verbatim>\<open>OverflowError\<close> instead of a result only when the pixel distance is
  an integer too large to convert to a float, which no distance below \<open>2^1023\<close> is.)
\<close>

theorem filtered_trajectory_replaces:
  assumes nc: "\<not> cancelled show_preview frames"
    and s: "s = run_frames h frames (init_state config)"
    and hint: "person_x_hint s = Some p"
    and far: "\<forall>b\<in>set (all_balls s). \<not> \<bar>ball_x b - p\<bar> < 200"
    and B: "B = static_bucket_of (position_counts (all_balls s))"
    and kept: "kept = filter (\<lambda>b. \<not> \<bar>ball_x b - (B + 25)\<bar> \<le> 75) (all_balls s)"
    and dominant: "40 * length (all_balls s) < 100 * bin_count (all_balls s) B"
    and three: "3 \<le> length kept"
  shows "\<exists>ox lx ly lf.
           resolve_origin config (all_balls s) (person_x_hint s) = (ox, kept)
         \<and> landing kept = Some (lx, ly, lf)
         \<and> process config frames h show_preview =
             (case float_of_int \<bar>lx - ox\<bar> of
                Inl e \<Rightarrow> Inl e
              | Inr d \<Rightarrow>
                  Inr \<lparr>status = ''VALID'',
                       distance_cm = Some (py_round (float_mul d (final_scale (scale s))) 2),
                       distance_m =
                         Some (py_round
                           (float_quotient (float_mul d (final_scale (scale s))) (Finite 100)) 3),
                       calibration_scale = Some (final_scale (scale s)),
                       trajectory_points = length kept, processing_time_ms = Finite 0,
                       error_message = None\<rparr>)
         \<and> (\<bar>lx - ox\<bar> < 2 ^ 1023 \<longrightarrow> (\<exists>a. float_of_int \<bar>lx - ox\<bar> = Inr (Finite a)))
         \<and> length kept < observations frames"
proof -
  have len_ge: "length kept \<le> length (all_balls s)" by (simp add: kept)
  then have three': "3 \<le> length (all_balls s)" using three by simp
  then have ne: "all_balls s \<noteq> []" by auto
  have "snd (origin_strategies (all_balls s) (Some p)) = kept"
    using static_cluster_filter [OF ne far] dominant three by (simp add: Let_def B kept)
  then obtain ox where res: "resolve_origin config (all_balls s) (person_x_hint s) = (ox, kept)"
    by (simp add: resolve_origin_def hint split_beta)
  have "kept \<noteq> []" using three by auto
  then obtain lx ly lf where land: "landing kept = Some (lx, ly, lf)"
    using landing_Some by blast
  have proc: "process config frames h show_preview = analyze config s"
    using nc by (simp add: process_completed s)
  obtain b where b: "b \<in> set (all_balls s)" and bB: "bucket_of (ball_x b) = B"
    using static_bucket_modal [OF ne] B by auto
  have "B \<le> ball_x b \<and> ball_x b < B + 50"
    using bucket_of_bounds [of "ball_x b"] bB by simp
  then have "\<bar>ball_x b - (B + 25)\<bar> \<le> 75" by linarith
  then have "length kept < length (all_balls s)"
    unfolding kept using b by (intro length_filter_less) auto
  moreover have "length (all_balls s) = observations frames"
    by (simp add: s length_all_balls_run init_state_def)
  ultimately have "length kept < observations frames" by simp
  moreover have "\<bar>lx - ox\<bar> < 2 ^ 1023 \<longrightarrow> (\<exists>a. float_of_int \<bar>lx - ox\<bar> = Inr (Finite a))"
    using float_of_int_in_range [of "\<bar>lx - ox\<bar>"] by simp
  ultimately show ?thesis
    using res land proc analyze_valid [OF three' res land] by auto
qed


theorem filtered_trajectory_replaces_witness:
  "\<not> cancelled False static_cluster_frames
   \<and> observations static_cluster_frames = 6
   \<and> all_balls (run_frames (Finite 175) static_cluster_frames
         (init_state \<lparr>manual_scale_cm_per_px = None, manual_origin_x = None\<rparr>))
       = static_cluster_balls
   \<and> landing static_cluster_balls = Some (1020, 500, 3)
   \<and> landing [(1500, 200, 4), (1600, 300, 5), (1700, 400, 6)] = Some (1700, 400, 6)
   \<and> length [(1500, 200, 4), (1600, 300, 5), (1700, 400, 6 :: nat)]
       < observations static_cluster_frames
   \<and> process \<lparr>manual_scale_cm_per_px = None, manual_origin_x = None\<rparr>
        static_cluster_frames (Finite 175) False =
       Inr \<lparr>status = ''VALID'', distance_cm = Some (Finite 100), distance_m = Some (Finite 1),
            calibration_scale = Some (Finite (1 / 2)), trajectory_points = 3,
            processing_time_ms = Finite 0, error_message = None\<rparr>"
proof -
  let ?config = "\<lparr>manual_scale_cm_per_px = None, manual_origin_x = None\<rparr>"
  let ?s = "run_frames (Finite 175) static_cluster_frames (init_state ?config)"
  let ?kept = "[(1500, 200, 4), (1600, 300, 5), (1700, 400, 6)] :: ball list"
  have nc: "\<not> cancelled False static_cluster_frames" by (simp add: cancelled_def)
  have ob: "observations static_cluster_frames = 6" by code_simp
  have balls: "all_balls ?s = static_cluster_balls" by code_simp
  have hint: "person_x_hint ?s = Some 100" by code_simp
  have far: "\<forall>b\<in>set (all_balls ?s). \<not> \<bar>ball_x b - 100\<bar> < 200" by code_simp
  have B: "1000 = static_bucket_of (position_counts (all_balls ?s))" by code_simp
  have kept: "?kept = filter (\<lambda>b. \<not> \<bar>ball_x b - (1000 + 25)\<bar> \<le> 75) (all_balls ?s)"
    by code_simp
  have dominant: "40 * length (all_balls ?s) < 100 * bin_count (all_balls ?s) 1000"
    by code_simp
  have three: "3 \<le> length ?kept" by simp
  have l6: "landing static_cluster_balls = Some (1020, 500, 3)" by code_simp
  have l3: "landing ?kept = Some (1700, 400, 6)" by code_simp
  have p: "process ?config static_cluster_frames (Finite 175) False =
       Inr \<lparr>status = ''VALID'', distance_cm = Some (Finite 100), distance_m = Some (Finite 1),
            calibration_scale = Some (Finite (1 / 2)), trajectory_points = 3,
            processing_time_ms = Finite 0, error_message = None\<rparr>" by code_simp
  have "length ?kept < observations static_cluster_frames"
    using filtered_trajectory_replaces [OF nc refl hint far B kept dominant three] by blast
  then show ?thesis
    using nc ob balls l6 l3 p by simp
qed

subsection \<open>The movement scan\<close>

text \<open>The loop with its \<^verbatim>\<open>break\<close> is a search for the first index, among those it is
  given, whose triple moves by more than 20 pixels.\<close>

lemma movement_scan_find:
  "movement_scan balls is origin_x =
     (case find (\<lambda>i. \<bar>ball_x (balls ! (i + 2)) - ball_x (balls ! i)\<bar> > 20) is of
        None \<Rightarrow> origin_x
      | Some i \<Rightarrow> ball_x (balls ! nat (max 0 (int i - 1))))"
  by (induction "is") simp_all

lemma movement_scan_reads_in_range:
  assumes "i \<in> set [0 ..< length balls - 3]"
  shows "i + 2 < length balls \<and> nat (max 0 (int i - 1)) < length balls"
  using assms by auto

text \<open>
  C7. The movement scan visits the indices \<^verbatim>\<open>range(len(all_balls) - 3)\<close>: the last triple
  \<open>(len - 3, len - 1)\<close> is never examined, and on three balls none is (the scan returns
  whatever origin it was given). On the five balls below only the last triple \<open>(2, 4)\<close>
  moves by more than 20 pixels: scanning every triple gives the origin \<open>x[1] = 1050\<close>,
  the source keeps \<open>x[0] = 1000\<close> and reports 50 cm for a 1100 landing.
\<close>

theorem movement_scan_skips_last_triple:
  "origin_strategies
     [(1000, 10, 1), (1050, 20, 2), (1005, 30, 3), (1055, 40, 4), (1100, 500, 5)] (Some 100)
     = (1000, [(1000, 10, 1), (1050, 20, 2), (1005, 30, 3), (1055, 40, 4), (1100, 500, 5)])
   \<and> spec_movement_origin
       [(1000, 10, 1), (1050, 20, 2), (1005, 30, 3), (1055, 40, 4), (1100, 500, 5)] = 1050
   \<and> process \<lparr>manual_scale_cm_per_px = None, manual_origin_x = None\<rparr>
       [frame (Some (100, None)) (Some (1000, 10)), frame None (Some (1050, 20)),
        frame None (Some (1005, 30)), frame None (Some (1055, 40)),
        frame None (Some (1100, 500))] (Finite 175) False
     = Inr \<lparr>status = ''VALID'', distance_cm = Some (Finite 50), distance_m = Some (Finite (1 / 2)),
            calibration_scale = Some (Finite (1 / 2)), trajectory_points = 5,
            processing_time_ms = Finite 0, error_message = None\<rparr>
   \<and> [0 ..< length [(100, 50, 1), (120, 55, 2), (300, 400, 3 :: nat)] - 3] = []
   \<and> movement_scan [(100, 50, 1), (120, 55, 2), (300, 400, 3)]
        [0 ..< length [(100, 50, 1), (120, 55, 2), (300, 400, 3 :: nat)] - 3] 7 = 7"
  by code_simp

subsection \<open>The manual origin\<close>

text \<open>
  C4. A manual origin that is supplied and is not zero is the resolved origin, for
  every trajectory and every person hint. The strategies are not skipped: they run first,
  and the trajectory they leave (the filtered one when the static-cluster filter takes
  effect) is the one the landing is taken from. The resolution is a function of the
  configuration, the trajectory and the hint, so equal inputs give equal results.
\<close>

theorem manual_origin_overrides:
  assumes "manual_origin_x config = Some m" and "m \<noteq> 0"
  shows "resolve_origin config balls hint = (m, snd (origin_strategies balls hint))"
  using assms by (simp add: resolve_origin_def manual_override_def split_beta)

theorem manual_origin_overrides_witness:
  "manual_origin_x \<lparr>manual_scale_cm_per_px = Some (nearest_double (8 / 10)), manual_origin_x = Some 50\<rparr>
     = Some 50
   \<and> (50 :: int) \<noteq> 0
   \<and> resolve_origin \<lparr>manual_scale_cm_per_px = Some (nearest_double (8 / 10)), manual_origin_x = Some 50\<rparr>
        [(100, 50, 1), (120, 55, 2), (350, 400, 3)] (Some 105)
       = (50, [(100, 50, 1), (120, 55, 2), (350, 400, 3)])
   \<and> resolve_origin \<lparr>manual_scale_cm_per_px = Some (nearest_double (8 / 10)), manual_origin_x = Some 50\<rparr>
        static_cluster_balls (Some 100)
       = (50, [(1500, 200, 4), (1600, 300, 5), (1700, 400, 6)])"
proof -
  let ?config = "\<lparr>manual_scale_cm_per_px = Some (nearest_double (8 / 10)), manual_origin_x = Some 50\<rparr>"
  have m: "manual_origin_x ?config = Some 50" by simp
  have nz: "(50 :: int) \<noteq> 0" by simp
  have s3: "snd (origin_strategies [(100, 50, 1), (120, 55, 2), (350, 400, 3)] (Some 105))
      = [(100, 50, 1), (120, 55, 2), (350, 400, 3)]" by code_simp
  have s6: "snd (origin_strategies static_cluster_balls (Some 100))
      = [(1500, 200, 4), (1600, 300, 5), (1700, 400, 6)]" by code_simp
  show ?thesis
    using manual_origin_overrides [OF m nz, of "[(100, 50, 1), (120, 55, 2), (350, 400, 3)]" "Some 105"]
      manual_origin_overrides [OF m nz, of static_cluster_balls "Some 100"] s3 s6
    by simp
qed

text \<open>
  C4 does not hold as the specification states it. A manual origin of 0 is not used: the test of line 471 is on
  the truth value, and the origin stays the first ball's 100. And with the manual origin
  50 the strategies still run: of six observations the filter keeps three, so the landing
  is (1700, 400) instead of the lowest ball (1020, 500), and the distance is 825 cm.
\<close>

theorem manual_origin_counterexample:
  "resolve_origin \<lparr>manual_scale_cm_per_px = None, manual_origin_x = Some 0\<rparr>
     [(100, 50, 1), (120, 55, 2), (300, 400, 3)] None
     = (100, [(100, 50, 1), (120, 55, 2), (300, 400, 3)])
   \<and> landing [(1000, 100, 1), (1010, 110, 2), (1020, 500, 3), (1500, 200, 4),
        (1600, 300, 5), (1700, 400, 6)] = Some (1020, 500, 3)
   \<and> process \<lparr>manual_scale_cm_per_px = None, manual_origin_x = Some 50\<rparr>
       [frame (Some (100, None)) (Some (1000, 100)), frame None (Some (1010, 110)),
        frame None (Some (1020, 500)), frame None (Some (1500, 200)),
        frame None (Some (1600, 300)), frame None (Some (1700, 400))] (Finite 175) False
     = Inr \<lparr>status = ''VALID'', distance_cm = Some (Finite 825), distance_m = Some (Finite (33 / 4)),
            calibration_scale = Some (Finite (1 / 2)), trajectory_points = 3,
            processing_time_ms = Finite 0, error_message = None\<rparr>"
  by code_simp


subsection \<open>The distance\<close>



lemma length_snd_origin_strategies:
  assumes "3 \<le> length balls"
  shows "3 \<le> length (snd (origin_strategies balls hint))"
proof (cases hint)
  case None
  then show ?thesis using assms by (simp add: origin_strategies_def)
next
  case (Some p)
  show ?thesis
  proof (cases "filter (\<lambda>b. \<bar>ball_x b - p\<bar> < 200) balls = []")
    case True
    then have "\<forall>b\<in>set balls. \<not> \<bar>ball_x b - p\<bar> < 200" by (simp add: filter_empty_conv)
    then have "snd (origin_strategies balls hint) = fst (static_filter balls (ball_x (balls ! 0)))"
      unfolding Some by (simp add: origin_strategies_far)
    then show ?thesis
      unfolding fst_static_filter using assms by (simp add: Let_def)
  next
    case False
    then show ?thesis using assms by (simp add: Some origin_strategies_def Let_def)
  qed
qed

text \<open>The only exception a run can end with is the \<^verbatim>\<open>OverflowError\<close> of the product.\<close>

lemma process_raises_only_overflow:
  assumes "process config frames h show_preview = Inl e"
  shows "e = OverflowError"
proof (cases "cancelled show_preview frames")
  case True
  then show ?thesis using assms by (simp add: process_cancelled)
next
  case False
  define s where "s = run_frames h frames (init_state config)"
  have an: "analyze config s = Inl e"
    using assms False by (simp add: process_completed s_def)
  then have ge: "3 \<le> length (all_balls s)"
    by (cases "length (all_balls s) < 3") (auto simp: analyze_def)
  obtain ox balls where res: "resolve_origin config (all_balls s) (person_x_hint s) = (ox, balls)"
    by (cases "resolve_origin config (all_balls s) (person_x_hint s)")
  have "balls = snd (origin_strategies (all_balls s) (person_x_hint s))"
    using res by (simp add: resolve_origin_def split_beta)
  then have "3 \<le> length balls" using ge length_snd_origin_strategies by simp
  then have "balls \<noteq> []" by auto
  then obtain lx ly lf where land: "landing balls = Some (lx, ly, lf)"
    using landing_Some by blast
  show ?thesis
    using an analyze_valid [OF ge res land]
    by (cases "nearest_double (rat_of_int \<bar>lx - ox\<bar>)") (auto simp: float_of_int_def)
qed




end
